theory Spec2Isabelle
  imports Main "HOL-Library.Multiset"
begin

section \<open>The sorting procedures of sorting.h\<close>

text \<open>
  Every procedure of sorting.h is a template over the element type \<open>T\<close> and takes the
  vector by reference and a comparator \<open>cmp_fn<T> = std::function<bool(T&, T&)>\<close>.
  The model is polymorphic in the element type as well. A vector is a list; an access
  \<open>v[i]\<close> outside the vector is undefined behaviour in C++, and the model ends such a
  run with \<open>None\<close>: a result \<open>Some (v', c')\<close> says that the call returned, with the vector
  \<open>v'\<close>, after touching places of the vector only. Indices are \<open>size_t\<close> in the source and
  natural numbers here; where an unsigned subtraction of the source would wrap, the
  model says so at the place.

  The comparator the animator passes (\<open>sort_cmp\<close>, below) writes the \<open>timer\<close> field of
  its two arguments and redraws the window before it answers; its answer depends on the
  \<open>value\<close> fields alone, and no sort procedure reads a timer. The model therefore takes
  the comparator as a predicate and counts its invocations: every function threads the
  number \<open>c\<close> of comparator calls made so far.
\<close>

type_synonym 'a cmp_fn = "'a \<Rightarrow> 'a \<Rightarrow> bool"

type_synonym 'a sort_fn = "'a cmp_fn \<Rightarrow> 'a list \<Rightarrow> ('a list \<times> nat) option"

subsection \<open>Selection sort\<close>

text \<open>
  The inner loop \<open>for (j = i + 1; j < v.size(); j++) if (cmp(v[j], v[smallest])) smallest = j\<close>.
  (\<open>smallest\<close> is an \<open>int\<close> in the source; the model is exact for vectors shorter than
  \<open>2^31\<close>.)
\<close>

function sel_inner :: "'a cmp_fn \<Rightarrow> 'a list \<Rightarrow> nat \<Rightarrow> nat \<Rightarrow> nat \<Rightarrow> (nat \<times> nat) option" where
  "sel_inner cmp v smallest j c =
     (if j < length v then
        (if smallest < length v then
           (if cmp (v ! j) (v ! smallest) then sel_inner cmp v j (j + 1) (c + 1)
            else sel_inner cmp v smallest (j + 1) (c + 1))
         else None)
      else Some (smallest, c))"
  by pat_completeness auto
termination
  by (relation "measure (\<lambda>(cmp, v, smallest, j, c). length v - j)") auto

declare sel_inner.simps [simp del]

text \<open>The outer loop: find the smallest of \<open>v[i..]\<close>, then swap it with \<open>v[i]\<close>.\<close>

function sel_outer :: "'a cmp_fn \<Rightarrow> 'a list \<Rightarrow> nat \<Rightarrow> nat \<Rightarrow> ('a list \<times> nat) option" where
  "sel_outer cmp v i c =
     (if i < length v then
        (case sel_inner cmp v i (i + 1) c of
           None \<Rightarrow> None
         | Some (smallest, c') \<Rightarrow>
             (if smallest < length v then
                sel_outer cmp (v[i := v ! smallest, smallest := v ! i]) (i + 1) c'
              else None))
      else Some (v, c))"
  by pat_completeness auto
termination
  by (relation "measure (\<lambda>(cmp, v, i, c). length v - i)") auto

declare sel_outer.simps [simp del]

definition selection_sort :: "'a sort_fn" where
  "selection_sort cmp v = sel_outer cmp v 0 0"

subsection \<open>Insertion sort\<close>

text \<open>\<open>while (j < i && cmp(v[j], v[i])) j++\<close>: the comparator runs only when \<open>j < i\<close>.\<close>

function ins_find :: "'a cmp_fn \<Rightarrow> 'a list \<Rightarrow> nat \<Rightarrow> nat \<Rightarrow> nat \<Rightarrow> (nat \<times> nat) option" where
  "ins_find cmp v i j c =
     (if j < i then
        (if i < length v then
           (if cmp (v ! j) (v ! i) then ins_find cmp v i (j + 1) (c + 1)
            else Some (j, c + 1))
         else None)
      else Some (j, c))"
  by pat_completeness auto
termination
  by (relation "measure (\<lambda>(cmp, v, i, j, c). i - j)") auto

declare ins_find.simps [simp del]

text \<open>\<open>while (j < i) { temp = v[j]; v[j] = v[i]; v[i] = temp; j++; }\<close>\<close>

function ins_shift :: "'a list \<Rightarrow> nat \<Rightarrow> nat \<Rightarrow> 'a list option" where
  "ins_shift v i j =
     (if j < i then
        (if i < length v then ins_shift (v[j := v ! i, i := v ! j]) i (j + 1) else None)
      else Some v)"
  by pat_completeness auto
termination
  by (relation "measure (\<lambda>(v, i, j). i - j)") auto

declare ins_shift.simps [simp del]

lemma ins_shift_length: "ins_shift v i j = Some v' \<Longrightarrow> length v' = length v"
proof (induction v i j arbitrary: v' rule: ins_shift.induct)
  case (1 v i j)
  show ?case
  proof (cases "j < i")
    case True
    with "1.prems" have "i < length v"
      and "ins_shift (v[j := v ! i, i := v ! j]) i (j + 1) = Some v'"
      by (auto simp: ins_shift.simps [of v i j] split: if_splits)
    with "1.IH" [of v'] True show ?thesis by simp
  next
    case False
    with "1.prems" show ?thesis by (simp add: ins_shift.simps [of v i j])
  qed
qed

text \<open>
  The outer loop starts at \<open>i = 1\<close>; \<open>v[i - 1]\<close> with \<open>i = 0\<close> would wrap to an index
  outside the vector.
\<close>

function ins_outer :: "'a cmp_fn \<Rightarrow> 'a list \<Rightarrow> nat \<Rightarrow> nat \<Rightarrow> ('a list \<times> nat) option" where
  "ins_outer cmp v i c =
     (if i < length v then
        (if 0 < i then
           (if cmp (v ! i) (v ! (i - 1)) then
              (case ins_find cmp v i 0 (c + 1) of
                 None \<Rightarrow> None
               | Some (j, c') \<Rightarrow>
                   (case ins_shift v i j of
                      None \<Rightarrow> None
                    | Some v' \<Rightarrow> ins_outer cmp v' (i + 1) c'))
            else ins_outer cmp v (i + 1) (c + 1))
         else None)
      else Some (v, c))"
  by pat_completeness auto
termination
  by (relation "measure (\<lambda>(cmp, v, i, c). length v - i)")
     (auto dest: ins_shift_length)

declare ins_outer.simps [simp del]

definition insertion_sort :: "'a sort_fn" where
  "insertion_sort cmp v = ins_outer cmp v 1 0"

subsection \<open>Bubble sort\<close>

text \<open>
  The inner loop \<open>for (j = 0; j < v.size() - i - 1; j++)\<close>. The bound is computed on
  \<open>size_t\<close>: with \<open>i \<ge> v.size()\<close> it wraps to a number beyond the vector and the loop
  reads outside it. The outer loop calls it with \<open>i < v.size()\<close> only.
\<close>

function bub_inner :: "'a cmp_fn \<Rightarrow> 'a list \<Rightarrow> nat \<Rightarrow> nat \<Rightarrow> nat \<Rightarrow> ('a list \<times> nat) option" where
  "bub_inner cmp v i j c =
     (if i < length v then
        (if j < length v - i - 1 then
           (if cmp (v ! (j + 1)) (v ! j) then
              bub_inner cmp (v[j := v ! (j + 1), j + 1 := v ! j]) i (j + 1) (c + 1)
            else bub_inner cmp v i (j + 1) (c + 1))
         else Some (v, c))
      else None)"
  by pat_completeness auto
termination
  by (relation "measure (\<lambda>(cmp, v, i, j, c). length v - j)") auto

declare bub_inner.simps [simp del]

lemma bub_inner_length: "bub_inner cmp v i j c = Some (v', c') \<Longrightarrow> length v' = length v"
proof (induction cmp v i j c arbitrary: v' c' rule: bub_inner.induct)
  case (1 cmp v i j c)
  from "1.prems" have i: "i < length v"
    by (simp add: bub_inner.simps [of cmp v i j c] split: if_splits)
  show ?case
  proof (cases "j < length v - i - 1")
    case True
    show ?thesis
    proof (cases "cmp (v ! (j + 1)) (v ! j)")
      case True
      with "1.prems" i \<open>j < length v - i - 1\<close>
      have "bub_inner cmp (v[j := v ! (j + 1), j + 1 := v ! j]) i (j + 1) (c + 1) = Some (v', c')"
        by (simp add: bub_inner.simps [of cmp v i j c])
      from "1.IH"(1) [OF i \<open>j < length v - i - 1\<close> True this] show ?thesis by simp
    next
      case False
      with "1.prems" i \<open>j < length v - i - 1\<close>
      have "bub_inner cmp v i (j + 1) (c + 1) = Some (v', c')"
        by (simp add: bub_inner.simps [of cmp v i j c])
      from "1.IH"(2) [OF i \<open>j < length v - i - 1\<close> False this] show ?thesis .
    qed
  next
    case False
    with "1.prems" i show ?thesis by (simp add: bub_inner.simps [of cmp v i j c])
  qed
qed

function bub_outer :: "'a cmp_fn \<Rightarrow> 'a list \<Rightarrow> nat \<Rightarrow> nat \<Rightarrow> ('a list \<times> nat) option" where
  "bub_outer cmp v i c =
     (if i < length v then
        (case bub_inner cmp v i 0 c of
           None \<Rightarrow> None
         | Some (v', c') \<Rightarrow> bub_outer cmp v' (i + 1) c')
      else Some (v, c))"
  by pat_completeness auto
termination
  by (relation "measure (\<lambda>(cmp, v, i, c). length v - i)")
     (auto dest: bub_inner_length)

declare bub_outer.simps [simp del]

definition bubble_sort :: "'a sort_fn" where
  "bubble_sort cmp v = (if length v \<le> 1 then Some (v, 0) else bub_outer cmp v 0 0)"

subsection \<open>Merge sort\<close>

text \<open>
  The loop of \<open>merge\<close>: \<open>i1\<close> runs over the left run \<open>[lo, mid)\<close>, \<open>i2\<close> over the right run
  \<open>[mid, hi)\<close>, and \<open>u\<close> collects the merged run. The comparator is called only while both
  runs have an element left, and the left element is taken whenever it answers true.
\<close>

function merge_loop ::
  "'a cmp_fn \<Rightarrow> 'a list \<Rightarrow> nat \<Rightarrow> nat \<Rightarrow> nat \<Rightarrow> nat \<Rightarrow> 'a list \<Rightarrow> nat \<Rightarrow> ('a list \<times> nat) option" where
  "merge_loop cmp v mid hi i1 i2 u c =
     (if i1 < mid \<or> i2 < hi then
        (if i1 = mid then
           (if i2 < length v then merge_loop cmp v mid hi i1 (i2 + 1) (u @ [v ! i2]) c
            else None)
         else if i2 = hi then
           (if i1 < length v then merge_loop cmp v mid hi (i1 + 1) i2 (u @ [v ! i1]) c
            else None)
         else
           (if i1 < length v \<and> i2 < length v then
              (if cmp (v ! i1) (v ! i2) then
                 merge_loop cmp v mid hi (i1 + 1) i2 (u @ [v ! i1]) (c + 1)
               else merge_loop cmp v mid hi i1 (i2 + 1) (u @ [v ! i2]) (c + 1))
            else None))
      else Some (u, c))"
  by pat_completeness auto
termination
  by (relation "measure (\<lambda>(cmp, v, mid, hi, i1, i2, u, c). (length v - i1) + (length v - i2))")
     auto

declare merge_loop.simps [simp del]

text \<open>
  \<open>std::copy(u.begin(), u.end(), v.begin() + d)\<close> overwrites \<open>v[d], ..., v[d + u.size() - 1]\<close>;
  it writes outside the vector when \<open>d + u.size() > v.size()\<close>.
\<close>

definition std_copy :: "'a list \<Rightarrow> 'a list \<Rightarrow> nat \<Rightarrow> 'a list option" where
  "std_copy u v d =
     (if d + length u \<le> length v then Some (take d v @ u @ drop (d + length u) v)
      else None)"

text \<open>
  \<open>merge\<close> and the helpers below compute \<open>hi - lo\<close> on \<open>size_t\<close>, which wraps when
  \<open>hi < lo\<close>; the sort procedures call them with \<open>lo \<le> hi\<close> only, and the model gives no
  result for \<open>hi < lo\<close>.
\<close>

definition merge :: "'a cmp_fn \<Rightarrow> 'a list \<Rightarrow> nat \<Rightarrow> nat \<Rightarrow> nat \<Rightarrow> ('a list \<times> nat) option" where
  "merge cmp v lo hi c =
     (if hi < lo then None
      else
        (let mid = lo + (hi - lo) div 2 in
         case merge_loop cmp v mid hi lo mid [] c of
           None \<Rightarrow> None
         | Some (u, c') \<Rightarrow>
             (case std_copy u v lo of
                None \<Rightarrow> None
              | Some v' \<Rightarrow> Some (v', c'))))"

function merge_sort_helper ::
  "'a cmp_fn \<Rightarrow> 'a list \<Rightarrow> nat \<Rightarrow> nat \<Rightarrow> nat \<Rightarrow> ('a list \<times> nat) option" where
  "merge_sort_helper cmp v lo hi c =
     (if hi < lo then None
      else if hi - lo \<le> 1 then Some (v, c)
      else
        (case merge_sort_helper cmp v lo (lo + (hi - lo) div 2) c of
           None \<Rightarrow> None
         | Some (v1, c1) \<Rightarrow>
             (case merge_sort_helper cmp v1 (lo + (hi - lo) div 2) hi c1 of
                None \<Rightarrow> None
              | Some (v2, c2) \<Rightarrow> merge cmp v2 lo hi c2)))"
  by pat_completeness auto
termination
  by (relation "measure (\<lambda>(cmp, v, lo, hi, c). hi - lo)") auto

declare merge_sort_helper.simps [simp del]

definition merge_sort :: "'a sort_fn" where
  "merge_sort cmp v = merge_sort_helper cmp v 0 (length v) 0"

subsection \<open>Parallel merge sort\<close>

text \<open>
  \<open>pmerge_sort_helper\<close> runs its two recursive calls on two new threads, \<open>head\<close> on
  \<open>[lo, mid)\<close> and \<open>tail\<close> on \<open>[mid, hi)\<close>, and joins both before it merges. The two threads
  work on disjoint ranges of the vector (\<open>merge_sort_frame\<close> below: a call reads and writes
  its own range only), so the joined result is the one of running \<open>head\<close> and then \<open>tail\<close>,
  which is what the model does. Thread creation is taken to succeed.
\<close>

function pmerge_sort_helper ::
  "'a cmp_fn \<Rightarrow> 'a list \<Rightarrow> nat \<Rightarrow> nat \<Rightarrow> nat \<Rightarrow> ('a list \<times> nat) option" where
  "pmerge_sort_helper cmp v lo hi c =
     (if hi < lo then None
      else if hi - lo \<le> 1 then Some (v, c)
      else
        (case pmerge_sort_helper cmp v lo (lo + (hi - lo) div 2) c of
           None \<Rightarrow> None
         | Some (v1, c1) \<Rightarrow>
             (case pmerge_sort_helper cmp v1 (lo + (hi - lo) div 2) hi c1 of
                None \<Rightarrow> None
              | Some (v2, c2) \<Rightarrow> merge cmp v2 lo hi c2)))"
  by pat_completeness auto
termination
  by (relation "measure (\<lambda>(cmp, v, lo, hi, c). hi - lo)") auto

declare pmerge_sort_helper.simps [simp del]

definition pmerge_sort :: "'a sort_fn" where
  "pmerge_sort cmp v = pmerge_sort_helper cmp v 0 (length v) 0"

subsection \<open>Quick sort\<close>

text \<open>
  The loop of \<open>partition\<close>: every element of \<open>[lo, hi)\<close> but the one at the pivot index \<open>p\<close> is
  compared with the copy \<open>vp\<close> of the pivot and appended to \<open>u1\<close> when the comparator answers
  true, to \<open>u2\<close> otherwise.
\<close>

function partition_loop ::
  "'a cmp_fn \<Rightarrow> 'a list \<Rightarrow> nat \<Rightarrow> nat \<Rightarrow> 'a \<Rightarrow> nat \<Rightarrow> 'a list \<Rightarrow> 'a list \<Rightarrow> nat
     \<Rightarrow> ('a list \<times> 'a list \<times> nat) option" where
  "partition_loop cmp v hi p vp i u1 u2 c =
     (if i < hi then
        (if i = p then partition_loop cmp v hi p vp (i + 1) u1 u2 c
         else if i < length v then
           (if cmp (v ! i) vp then partition_loop cmp v hi p vp (i + 1) (u1 @ [v ! i]) u2 (c + 1)
            else partition_loop cmp v hi p vp (i + 1) u1 (u2 @ [v ! i]) (c + 1))
         else None)
      else Some (u1, u2, c))"
  by pat_completeness auto
termination
  by (relation "measure (\<lambda>(cmp, v, hi, p, vp, i, u1, u2, c). hi - i)") auto

declare partition_loop.simps [simp del]

text \<open>
  \<open>partition\<close> (the name \<open>partition\<close> is taken by a list function of HOL): copy \<open>u1\<close> to
  \<open>v[lo..]\<close>, write the pivot behind it, copy \<open>u2\<close> behind the pivot, and return
  \<open>u1.size()\<close>. The result is the vector, the returned number and the comparator count.
\<close>

definition partition_vec ::
  "'a cmp_fn \<Rightarrow> 'a list \<Rightarrow> nat \<Rightarrow> nat \<Rightarrow> nat \<Rightarrow> nat \<Rightarrow> ('a list \<times> nat \<times> nat) option" where
  "partition_vec cmp v lo hi p c =
     (if p < length v then
        (case partition_loop cmp v hi p (v ! p) lo [] [] c of
           None \<Rightarrow> None
         | Some (u1, u2, c') \<Rightarrow>
             (case std_copy u1 v lo of
                None \<Rightarrow> None
              | Some v1 \<Rightarrow>
                  (if lo + length u1 < length v1 then
                     (case std_copy u2 (v1[lo + length u1 := v ! p]) (lo + length u1 + 1) of
                        None \<Rightarrow> None
                      | Some v2 \<Rightarrow> Some (v2, length u1, c'))
                   else None)))
      else None)"

text \<open>
  The recursion of the three quick sorts follows the number \<open>partition\<close> returns, so
  whether it ends is a property to prove: the helpers are partial functions, and \<open>None\<close>
  is also the result of a call that does not return.
\<close>

partial_function (option) quick_sort_helper ::
  "'a cmp_fn \<Rightarrow> 'a list \<Rightarrow> nat \<Rightarrow> nat \<Rightarrow> nat \<Rightarrow> ('a list \<times> nat) option" where
  "quick_sort_helper cmp v lo hi c =
     (if hi < lo then None
      else if hi - lo \<le> 1 then Some (v, c)
      else
        (case partition_vec cmp v lo hi (lo + (hi - lo) div 2) c of
           None \<Rightarrow> None
         | Some (v', p, c') \<Rightarrow>
             Option.bind (quick_sort_helper cmp v' lo (lo + p) c')
               (\<lambda>(v1, c1). quick_sort_helper cmp v1 (lo + p + 1) hi c1)))"

declare quick_sort_helper.simps [code]

definition quick_sort :: "'a sort_fn" where
  "quick_sort cmp v = quick_sort_helper cmp v 0 (length v) 0"

subsection \<open>Parallel quick sort\<close>

text \<open>
  As in the parallel merge sort, \<open>head\<close> sorts \<open>[lo, lo + p)\<close> and \<open>tail\<close> sorts
  \<open>[lo + p + 1, hi)\<close> on threads of their own, joined before the call returns; the ranges
  are disjoint (\<open>pquick_sort_frame\<close> and \<open>pquick_sort_local\<close> below: a call writes its own
  range only, and what it leaves there depends on that range only) and the model runs
  \<open>head\<close>, then \<open>tail\<close>.
\<close>

partial_function (option) pquick_sort_helper ::
  "'a cmp_fn \<Rightarrow> 'a list \<Rightarrow> nat \<Rightarrow> nat \<Rightarrow> nat \<Rightarrow> ('a list \<times> nat) option" where
  "pquick_sort_helper cmp v lo hi c =
     (if hi < lo then None
      else if hi - lo \<le> 1 then Some (v, c)
      else
        (case partition_vec cmp v lo hi (lo + (hi - lo) div 2) c of
           None \<Rightarrow> None
         | Some (v', p, c') \<Rightarrow>
             Option.bind (pquick_sort_helper cmp v' lo (lo + p) c')
               (\<lambda>(v1, c1). pquick_sort_helper cmp v1 (lo + p + 1) hi c1)))"

declare pquick_sort_helper.simps [code]

definition pquick_sort :: "'a sort_fn" where
  "pquick_sort cmp v = pquick_sort_helper cmp v 0 (length v) 0"

subsection \<open>Randomized parallel quick sort\<close>

text \<open>
  The pivot index is \<open>rand() % (hi - lo) + lo\<close>. \<open>rand()\<close> returns a number from \<open>0\<close> to
  \<open>RAND_MAX\<close>; which number a call gets depends on the generator's state and on how the
  threads interleave. The model takes the numbers as a parameter \<open>rnd\<close>: \<open>rnd lo hi\<close> is
  what \<open>rand()\<close> returns in the call on the range \<open>[lo, hi)\<close>. Within one run no two calls
  that reach \<open>rand()\<close> have the same range (the range of a call lies inside its parent's
  and apart from its sibling's), so every way \<open>rand()\<close> can answer during a run is one
  \<open>rnd\<close>.
\<close>

partial_function (option) rpquick_sort_helper ::
  "'a cmp_fn \<Rightarrow> (nat \<Rightarrow> nat \<Rightarrow> nat) \<Rightarrow> 'a list \<Rightarrow> nat \<Rightarrow> nat \<Rightarrow> nat \<Rightarrow> ('a list \<times> nat) option" where
  "rpquick_sort_helper cmp rnd v lo hi c =
     (if hi < lo then None
      else if hi - lo \<le> 1 then Some (v, c)
      else
        (case partition_vec cmp v lo hi (rnd lo hi mod (hi - lo) + lo) c of
           None \<Rightarrow> None
         | Some (v', p, c') \<Rightarrow>
             Option.bind (rpquick_sort_helper cmp rnd v' lo (lo + p) c')
               (\<lambda>(v1, c1). rpquick_sort_helper cmp rnd v1 (lo + p + 1) hi c1)))"

declare rpquick_sort_helper.simps [code]

definition rpquick_sort :: "(nat \<Rightarrow> nat \<Rightarrow> nat) \<Rightarrow> 'a sort_fn" where
  "rpquick_sort rnd cmp v = rpquick_sort_helper cmp rnd v 0 (length v) 0"

subsection \<open>std::sort\<close>

text \<open>
  \<open>std_sort\<close> hands the vector and the comparator to \<open>std::sort\<close> of the C++ standard
  library, which is not code of this repository: the model takes it as a parameter
  \<open>lib\<close>.
\<close>

definition std_sort :: "'a sort_fn \<Rightarrow> 'a sort_fn" where
  "std_sort lib cmp v = lib cmp v"

text \<open>
  To see what \<open>std_sort\<close> does with the animator's comparator, the model also has the
  \<open>std::sort\<close> of the GNU C++ library (libstdc++, \<open>bits/stl_algo.h\<close> and
  \<open>bits/stl_heap.h\<close>), \<open>libstdcxx_sort\<close> below. It is an introsort: quicksort around the
  median of three elements down to ranges of \<open>_S_threshold = 16\<close> elements, heap sort of
  a range once the depth \<open>2 * lg n\<close> is used up, and one insertion sort of the whole
  vector at the end. The functions keep the library's names without the leading
  underscores. Iterators are indices into the vector (\<open>last\<close> is written \<open>lst\<close> and
  \<open>cut\<close> \<open>cut_it\<close>, names that HOL has taken); a read or a write outside the vector, which
  is undefined in C++, is the failure \<open>None\<close>; every call of the comparator is counted.
\<close>

definition S_threshold :: nat where
  "S_threshold = 16"

text \<open>\<open>std::__lg(n)\<close>, the floor of the binary logarithm.\<close>

function std_lg :: "nat \<Rightarrow> nat" where
  "std_lg n = (if n \<le> 1 then 0 else 1 + std_lg (n div 2))"
  by pat_completeness auto
termination
  by (relation "measure (\<lambda>n. n)") auto

declare std_lg.simps [simp del]

text \<open>
  \<open>__unguarded_linear_insert(last, comp)\<close>:
  \<open>val = *last; next = last; --next;
  while (comp(val, next)) { *last = *next; last = next; --next; } *last = val;\<close>.
  Nothing keeps \<open>next\<close> inside the vector but the comparator's answer; \<open>--next\<close> at the
  first element leaves the vector.
\<close>

function unguarded_linear_insert_loop ::
  "'a cmp_fn \<Rightarrow> 'a list \<Rightarrow> 'a \<Rightarrow> nat \<Rightarrow> nat \<Rightarrow> nat \<Rightarrow> ('a list \<times> nat) option" where
  "unguarded_linear_insert_loop cmp v val lst nxt c =
     (if nxt < length v \<and> lst < length v then
        (if cmp val (v ! nxt) then
           (if nxt = 0 then None
            else unguarded_linear_insert_loop cmp (v[lst := v ! nxt]) val nxt (nxt - 1) (c + 1))
         else Some (v[lst := val], c + 1))
      else None)"
  by pat_completeness auto
termination
  by (relation "measure (\<lambda>(cmp, v, val, lst, nxt, c). nxt)") auto

declare unguarded_linear_insert_loop.simps [simp del]

definition unguarded_linear_insert ::
  "'a cmp_fn \<Rightarrow> 'a list \<Rightarrow> nat \<Rightarrow> nat \<Rightarrow> ('a list \<times> nat) option" where
  "unguarded_linear_insert cmp v lst c =
     (if 0 < lst \<and> lst < length v then
        unguarded_linear_insert_loop cmp v (v ! lst) lst (lst - 1) c
      else None)"

lemma unguarded_linear_insert_loop_length:
  "unguarded_linear_insert_loop cmp v val lst nxt c = Some (v', c') \<Longrightarrow> length v' = length v"
proof (induction cmp v val lst nxt c rule: unguarded_linear_insert_loop.induct)
  case (1 cmp v val lst nxt c)
  note unf = unguarded_linear_insert_loop.simps [of cmp v val lst nxt c]
  show ?case
  proof (cases "nxt < length v \<and> lst < length v")
    case False
    with unf "1.prems" show ?thesis by simp
  next
    case inr: True
    show ?thesis
    proof (cases "cmp val (v ! nxt)")
      case False
      with unf inr "1.prems" show ?thesis by auto
    next
      case True
      show ?thesis
      proof (cases "nxt = 0")
        case True
        with unf inr \<open>cmp val (v ! nxt)\<close> "1.prems" show ?thesis by simp
      next
        case False
        with unf inr True "1.prems"
        have "unguarded_linear_insert_loop cmp (v[lst := v ! nxt]) val nxt (nxt - 1) (c + 1) =
            Some (v', c')" by simp
        from "1.IH" [OF inr True False this] show ?thesis by simp
      qed
    qed
  qed
qed

lemma unguarded_linear_insert_length:
  "unguarded_linear_insert cmp v lst c = Some (v', c') \<Longrightarrow> length v' = length v"
  unfolding unguarded_linear_insert_def
  by (auto dest: unguarded_linear_insert_loop_length split: if_splits)

text \<open>
  \<open>std::move_backward(first, last, d_last)\<close> copies the range \<open>[first, last)\<close> to the
  range that ends at \<open>d_last\<close>, last element first.
\<close>

definition move_backward :: "'a list \<Rightarrow> nat \<Rightarrow> nat \<Rightarrow> nat \<Rightarrow> 'a list option" where
  "move_backward v first lst d_last =
     (if first \<le> lst \<and> lst \<le> length v \<and> lst - first \<le> d_last \<and> d_last \<le> length v then
        Some (take (d_last - (lst - first)) v @ take (lst - first) (drop first v) @ drop d_last v)
      else None)"

lemma move_backward_length:
  "move_backward v first lst d_last = Some v' \<Longrightarrow> length v' = length v"
  unfolding move_backward_def by (auto split: if_splits)

text \<open>
  \<open>__insertion_sort(first, last, comp)\<close>: \<open>if (first == last) return;\<close> and then, for
  \<open>i = first + 1; i != last; ++i\<close>,
  \<open>if (comp(i, first)) { val = *i; move_backward(first, i, i + 1); *first = val; }
  else __unguarded_linear_insert(i, comp);\<close>.
\<close>

function insertion_sort_loop ::
  "'a cmp_fn \<Rightarrow> 'a list \<Rightarrow> nat \<Rightarrow> nat \<Rightarrow> nat \<Rightarrow> nat \<Rightarrow> ('a list \<times> nat) option" where
  "insertion_sort_loop cmp v first lst i c =
     (if i = lst then Some (v, c)
      else if i < length v \<and> first < length v then
        (if cmp (v ! i) (v ! first) then
           (case move_backward v first i (i + 1) of
              None \<Rightarrow> None
            | Some v1 \<Rightarrow> insertion_sort_loop cmp (v1[first := v ! i]) first lst (i + 1) (c + 1))
         else
           (case unguarded_linear_insert cmp v i (c + 1) of
              None \<Rightarrow> None
            | Some (v1, c1) \<Rightarrow> insertion_sort_loop cmp v1 first lst (i + 1) c1))
      else None)"
  by pat_completeness auto
termination
  by (relation "measure (\<lambda>(cmp, v, first, lst, i, c). length v - i)")
     (auto dest: move_backward_length unguarded_linear_insert_length)

declare insertion_sort_loop.simps [simp del]

definition std_insertion_sort ::
  "'a cmp_fn \<Rightarrow> 'a list \<Rightarrow> nat \<Rightarrow> nat \<Rightarrow> nat \<Rightarrow> ('a list \<times> nat) option" where
  "std_insertion_sort cmp v first lst c =
     (if first = lst then Some (v, c) else insertion_sort_loop cmp v first lst (first + 1) c)"

text \<open>
  \<open>__unguarded_insertion_sort(first, last, comp)\<close>:
  \<open>for (i = first; i != last; ++i) __unguarded_linear_insert(i, comp);\<close>
\<close>

function unguarded_insertion_sort ::
  "'a cmp_fn \<Rightarrow> 'a list \<Rightarrow> nat \<Rightarrow> nat \<Rightarrow> nat \<Rightarrow> ('a list \<times> nat) option" where
  "unguarded_insertion_sort cmp v i lst c =
     (if i = lst then Some (v, c)
      else if i < length v then
        (case unguarded_linear_insert cmp v i c of
           None \<Rightarrow> None
         | Some (v1, c1) \<Rightarrow> unguarded_insertion_sort cmp v1 (i + 1) lst c1)
      else None)"
  by pat_completeness auto
termination
  by (relation "measure (\<lambda>(cmp, v, i, lst, c). length v - i)")
     (auto dest: unguarded_linear_insert_length)

declare unguarded_insertion_sort.simps [simp del]

text \<open>
  \<open>__final_insertion_sort(first, last, comp)\<close>: with more than 16 elements,
  \<open>__insertion_sort(first, first + 16, comp)\<close> and
  \<open>__unguarded_insertion_sort(first + 16, last, comp)\<close>; otherwise
  \<open>__insertion_sort(first, last, comp)\<close>.
\<close>

definition final_insertion_sort ::
  "'a cmp_fn \<Rightarrow> 'a list \<Rightarrow> nat \<Rightarrow> nat \<Rightarrow> nat \<Rightarrow> ('a list \<times> nat) option" where
  "final_insertion_sort cmp v first lst c =
     (if lst - first > S_threshold then
        (case std_insertion_sort cmp v first (first + S_threshold) c of
           None \<Rightarrow> None
         | Some (v1, c1) \<Rightarrow> unguarded_insertion_sort cmp v1 (first + S_threshold) lst c1)
      else std_insertion_sort cmp v first lst c)"

text \<open>\<open>std::iter_swap(a, b)\<close>\<close>

definition iter_swap :: "'a list \<Rightarrow> nat \<Rightarrow> nat \<Rightarrow> 'a list option" where
  "iter_swap v a b =
     (if a < length v \<and> b < length v then Some (v[a := v ! b, b := v ! a]) else None)"

text \<open>
  \<open>__move_median_to_first(result, a, b, c, comp)\<close> swaps the median of \<open>*a\<close>, \<open>*b\<close>, \<open>*c\<close>
  with \<open>*result\<close>:
  \<open>if (comp(a, b)) { if (comp(b, c)) iter_swap(result, b);
  else if (comp(a, c)) iter_swap(result, c); else iter_swap(result, a); }
  else if (comp(a, c)) iter_swap(result, a);
  else if (comp(b, c)) iter_swap(result, c); else iter_swap(result, b);\<close>
  (the iterator \<open>c\<close> is \<open>c'\<close> here, \<open>c\<close> being the count of comparisons).
\<close>

definition move_median_to_first ::
  "'a cmp_fn \<Rightarrow> 'a list \<Rightarrow> nat \<Rightarrow> nat \<Rightarrow> nat \<Rightarrow> nat \<Rightarrow> nat \<Rightarrow> ('a list \<times> nat) option" where
  "move_median_to_first cmp v result a b c' c =
     (if a < length v \<and> b < length v \<and> c' < length v then
        (if cmp (v ! a) (v ! b) then
           (if cmp (v ! b) (v ! c') then map_option (\<lambda>w. (w, c + 2)) (iter_swap v result b)
            else if cmp (v ! a) (v ! c') then map_option (\<lambda>w. (w, c + 3)) (iter_swap v result c')
            else map_option (\<lambda>w. (w, c + 3)) (iter_swap v result a))
         else if cmp (v ! a) (v ! c') then map_option (\<lambda>w. (w, c + 2)) (iter_swap v result a)
         else if cmp (v ! b) (v ! c') then map_option (\<lambda>w. (w, c + 3)) (iter_swap v result c')
         else map_option (\<lambda>w. (w, c + 3)) (iter_swap v result b))
      else None)"

text \<open>
  \<open>__unguarded_partition(first, last, pivot, comp)\<close>:
  \<open>while (true) { while (comp(first, pivot)) ++first; --last;
  while (comp(pivot, last)) --last; if (!(first < last)) return first;
  iter_swap(first, last); ++first; }\<close>.
  The two inner loops are \<open>scan_up\<close> and \<open>scan_down\<close>: they stop where the comparator
  answers false and nowhere else.
\<close>

function scan_up :: "'a cmp_fn \<Rightarrow> 'a list \<Rightarrow> nat \<Rightarrow> nat \<Rightarrow> nat \<Rightarrow> (nat \<times> nat) option" where
  "scan_up cmp v first pivot c =
     (if first < length v \<and> pivot < length v then
        (if cmp (v ! first) (v ! pivot) then scan_up cmp v (first + 1) pivot (c + 1)
         else Some (first, c + 1))
      else None)"
  by pat_completeness auto
termination
  by (relation "measure (\<lambda>(cmp, v, first, pivot, c). length v - first)") auto

declare scan_up.simps [simp del]

function scan_down :: "'a cmp_fn \<Rightarrow> 'a list \<Rightarrow> nat \<Rightarrow> nat \<Rightarrow> nat \<Rightarrow> (nat \<times> nat) option" where
  "scan_down cmp v pivot lst c =
     (if lst < length v \<and> pivot < length v then
        (if cmp (v ! pivot) (v ! lst) then
           (if lst = 0 then None else scan_down cmp v pivot (lst - 1) (c + 1))
         else Some (lst, c + 1))
      else None)"
  by pat_completeness auto
termination
  by (relation "measure (\<lambda>(cmp, v, pivot, lst, c). lst)") auto

declare scan_down.simps [simp del]

lemma scan_down_le: "scan_down cmp v pivot lst c = Some (lst', c') \<Longrightarrow> lst' \<le> lst"
proof (induction cmp v pivot lst c rule: scan_down.induct)
  case (1 cmp v pivot lst c)
  note unf = scan_down.simps [of cmp v pivot lst c]
  show ?case
  proof (cases "lst < length v \<and> pivot < length v \<and> cmp (v ! pivot) (v ! lst) \<and> lst \<noteq> 0")
    case True
    with unf "1.prems" have "scan_down cmp v pivot (lst - 1) (c + 1) = Some (lst', c')" by simp
    from "1.IH" [OF _ _ _ this] True show ?thesis by simp
  next
    case False
    with unf "1.prems" show ?thesis by (auto split: if_splits)
  qed
qed

function unguarded_partition ::
  "'a cmp_fn \<Rightarrow> 'a list \<Rightarrow> nat \<Rightarrow> nat \<Rightarrow> nat \<Rightarrow> nat \<Rightarrow> ('a list \<times> nat \<times> nat) option" where
  "unguarded_partition cmp v first lst pivot c =
     (case scan_up cmp v first pivot c of
        None \<Rightarrow> None
      | Some (first1, c1) \<Rightarrow>
          (if lst = 0 then None
           else
             (case scan_down cmp v pivot (lst - 1) c1 of
                None \<Rightarrow> None
              | Some (lst1, c2) \<Rightarrow>
                  (if \<not> first1 < lst1 then Some (v, first1, c2)
                   else
                     (case iter_swap v first1 lst1 of
                        None \<Rightarrow> None
                      | Some v1 \<Rightarrow> unguarded_partition cmp v1 (first1 + 1) lst1 pivot c2)))))"
  by pat_completeness auto
termination
  by (relation "measure (\<lambda>(cmp, v, first, lst, pivot, c). lst)")
     (auto dest: scan_down_le)

declare unguarded_partition.simps [simp del]

text \<open>
  \<open>__unguarded_partition_pivot(first, last, comp)\<close>:
  \<open>mid = first + (last - first) / 2;
  __move_median_to_first(first, first + 1, mid, last - 1, comp);
  return __unguarded_partition(first + 1, last, first, comp);\<close>
\<close>

definition unguarded_partition_pivot ::
  "'a cmp_fn \<Rightarrow> 'a list \<Rightarrow> nat \<Rightarrow> nat \<Rightarrow> nat \<Rightarrow> ('a list \<times> nat \<times> nat) option" where
  "unguarded_partition_pivot cmp v first lst c =
     (if lst = 0 then None
      else
        (case move_median_to_first cmp v first (first + 1) (first + (lst - first) div 2)
                (lst - 1) c of
           None \<Rightarrow> None
         | Some (v1, c1) \<Rightarrow> unguarded_partition cmp v1 (first + 1) lst first c1))"

text \<open>
  The heap functions of \<open>bits/stl_heap.h\<close>.
  \<open>__push_heap(first, holeIndex, topIndex, value, comp)\<close>:
  \<open>parent = (holeIndex - 1) / 2;
  while (holeIndex > topIndex && comp(first + parent, value)) {
  *(first + holeIndex) = *(first + parent); holeIndex = parent;
  parent = (holeIndex - 1) / 2; }
  *(first + holeIndex) = value;\<close>
\<close>

function push_heap ::
  "'a cmp_fn \<Rightarrow> 'a list \<Rightarrow> nat \<Rightarrow> nat \<Rightarrow> nat \<Rightarrow> 'a \<Rightarrow> nat \<Rightarrow> ('a list \<times> nat) option" where
  "push_heap cmp v first holeIndex topIndex val c =
     (if holeIndex > topIndex then
        (if first + (holeIndex - 1) div 2 < length v \<and> first + holeIndex < length v then
           (if cmp (v ! (first + (holeIndex - 1) div 2)) val then
              push_heap cmp (v[first + holeIndex := v ! (first + (holeIndex - 1) div 2)])
                first ((holeIndex - 1) div 2) topIndex val (c + 1)
            else Some (v[first + holeIndex := val], c + 1))
         else None)
      else if first + holeIndex < length v then Some (v[first + holeIndex := val], c)
      else None)"
  by pat_completeness auto
termination
  by (relation "measure (\<lambda>(cmp, v, first, holeIndex, topIndex, val, c). holeIndex)") auto

declare push_heap.simps [simp del]

text \<open>
  \<open>__adjust_heap(first, holeIndex, len, value, comp)\<close>:
  \<open>topIndex = holeIndex; secondChild = holeIndex;
  while (secondChild < (len - 1) / 2) { secondChild = 2 * (secondChild + 1);
  if (comp(first + secondChild, first + (secondChild - 1))) secondChild--;
  *(first + holeIndex) = *(first + secondChild); holeIndex = secondChild; }
  if ((len & 1) == 0 && secondChild == (len - 2) / 2) {
  secondChild = 2 * (secondChild + 1);
  *(first + holeIndex) = *(first + (secondChild - 1)); holeIndex = secondChild - 1; }
  __push_heap(first, holeIndex, topIndex, value, comp);\<close>.
  The lengths are signed in C++: \<open>(len - 2) / 2\<close> is negative for \<open>len = 0\<close> and no
  \<open>secondChild\<close> equals it, whence \<open>2 \<le> len\<close> in the model's test.
\<close>

function adjust_heap_loop ::
  "'a cmp_fn \<Rightarrow> 'a list \<Rightarrow> nat \<Rightarrow> nat \<Rightarrow> nat \<Rightarrow> nat \<Rightarrow> nat \<Rightarrow> ('a list \<times> nat \<times> nat \<times> nat) option" where
  "adjust_heap_loop cmp v first holeIndex secondChild len c =
     (if secondChild < (len - 1) div 2 then
        (if first + 2 * (secondChild + 1) < length v \<and> first + holeIndex < length v then
           (if cmp (v ! (first + 2 * (secondChild + 1))) (v ! (first + (2 * (secondChild + 1) - 1)))
            then
              adjust_heap_loop cmp
                (v[first + holeIndex := v ! (first + (2 * (secondChild + 1) - 1))])
                first (2 * (secondChild + 1) - 1) (2 * (secondChild + 1) - 1) len (c + 1)
            else
              adjust_heap_loop cmp
                (v[first + holeIndex := v ! (first + 2 * (secondChild + 1))])
                first (2 * (secondChild + 1)) (2 * (secondChild + 1)) len (c + 1))
         else None)
      else Some (v, holeIndex, secondChild, c))"
  by pat_completeness auto
termination
  by (relation "measure (\<lambda>(cmp, v, first, holeIndex, secondChild, len, c). len - secondChild)")
     auto

declare adjust_heap_loop.simps [simp del]

definition adjust_heap ::
  "'a cmp_fn \<Rightarrow> 'a list \<Rightarrow> nat \<Rightarrow> nat \<Rightarrow> nat \<Rightarrow> 'a \<Rightarrow> nat \<Rightarrow> ('a list \<times> nat) option" where
  "adjust_heap cmp v first holeIndex len val c =
     (case adjust_heap_loop cmp v first holeIndex holeIndex len c of
        None \<Rightarrow> None
      | Some (v1, holeIndex1, secondChild1, c1) \<Rightarrow>
          (if even len \<and> 2 \<le> len \<and> secondChild1 = (len - 2) div 2 then
             (if first + (2 * (secondChild1 + 1) - 1) < length v1 \<and> first + holeIndex1 < length v1
              then
                push_heap cmp (v1[first + holeIndex1 := v1 ! (first + (2 * (secondChild1 + 1) - 1))])
                  first (2 * (secondChild1 + 1) - 1) holeIndex val c1
              else None)
           else push_heap cmp v1 first holeIndex1 holeIndex val c1))"

text \<open>
  \<open>__pop_heap(first, last, result, comp)\<close>:
  \<open>value = *result; *result = *first; __adjust_heap(first, 0, last - first, value, comp);\<close>
\<close>

definition pop_heap ::
  "'a cmp_fn \<Rightarrow> 'a list \<Rightarrow> nat \<Rightarrow> nat \<Rightarrow> nat \<Rightarrow> nat \<Rightarrow> ('a list \<times> nat) option" where
  "pop_heap cmp v first lst result c =
     (if result < length v \<and> first < length v then
        adjust_heap cmp (v[result := v ! first]) first 0 (lst - first) (v ! result) c
      else None)"

text \<open>
  \<open>__make_heap(first, last, comp)\<close>: \<open>if (last - first < 2) return;
  len = last - first; parent = (len - 2) / 2;
  while (true) { value = *(first + parent); __adjust_heap(first, parent, len, value, comp);
  if (parent == 0) return; parent--; }\<close>
\<close>

function make_heap_loop ::
  "'a cmp_fn \<Rightarrow> 'a list \<Rightarrow> nat \<Rightarrow> nat \<Rightarrow> nat \<Rightarrow> nat \<Rightarrow> ('a list \<times> nat) option" where
  "make_heap_loop cmp v first len parent c =
     (if first + parent < length v then
        (case adjust_heap cmp v first parent len (v ! (first + parent)) c of
           None \<Rightarrow> None
         | Some (v1, c1) \<Rightarrow>
             (if parent = 0 then Some (v1, c1) else make_heap_loop cmp v1 first len (parent - 1) c1))
      else None)"
  by pat_completeness auto
termination
  by (relation "measure (\<lambda>(cmp, v, first, len, parent, c). parent)") auto

declare make_heap_loop.simps [simp del]

definition make_heap ::
  "'a cmp_fn \<Rightarrow> 'a list \<Rightarrow> nat \<Rightarrow> nat \<Rightarrow> nat \<Rightarrow> ('a list \<times> nat) option" where
  "make_heap cmp v first lst c =
     (if lst - first < 2 then Some (v, c)
      else make_heap_loop cmp v first (lst - first) ((lst - first - 2) div 2) c)"

text \<open>
  \<open>__sort_heap(first, last, comp)\<close>:
  \<open>while (last - first > 1) { --last; __pop_heap(first, last, last, comp); }\<close>
\<close>

function sort_heap ::
  "'a cmp_fn \<Rightarrow> 'a list \<Rightarrow> nat \<Rightarrow> nat \<Rightarrow> nat \<Rightarrow> ('a list \<times> nat) option" where
  "sort_heap cmp v first lst c =
     (if lst - first > 1 then
        (case pop_heap cmp v first (lst - 1) (lst - 1) c of
           None \<Rightarrow> None
         | Some (v1, c1) \<Rightarrow> sort_heap cmp v1 first (lst - 1) c1)
      else Some (v, c))"
  by pat_completeness auto
termination
  by (relation "measure (\<lambda>(cmp, v, first, lst, c). lst)") auto

declare sort_heap.simps [simp del]

text \<open>
  \<open>__heap_select(first, middle, last, comp)\<close>: \<open>__make_heap(first, middle, comp);
  for (i = middle; i < last; ++i) if (comp(i, first)) __pop_heap(first, middle, i, comp);\<close>
  and \<open>__partial_sort(first, middle, last, comp)\<close>:
  \<open>__heap_select(first, middle, last, comp); __sort_heap(first, middle, comp);\<close>
\<close>

function heap_select_loop ::
  "'a cmp_fn \<Rightarrow> 'a list \<Rightarrow> nat \<Rightarrow> nat \<Rightarrow> nat \<Rightarrow> nat \<Rightarrow> nat \<Rightarrow> ('a list \<times> nat) option" where
  "heap_select_loop cmp v first middle lst i c =
     (if i < lst then
        (if i < length v \<and> first < length v then
           (if cmp (v ! i) (v ! first) then
              (case pop_heap cmp v first middle i (c + 1) of
                 None \<Rightarrow> None
               | Some (v1, c1) \<Rightarrow> heap_select_loop cmp v1 first middle lst (i + 1) c1)
            else heap_select_loop cmp v first middle lst (i + 1) (c + 1))
         else None)
      else Some (v, c))"
  by pat_completeness auto
termination
  by (relation "measure (\<lambda>(cmp, v, first, middle, lst, i, c). lst - i)") auto

declare heap_select_loop.simps [simp del]

definition heap_select ::
  "'a cmp_fn \<Rightarrow> 'a list \<Rightarrow> nat \<Rightarrow> nat \<Rightarrow> nat \<Rightarrow> nat \<Rightarrow> ('a list \<times> nat) option" where
  "heap_select cmp v first middle lst c =
     (case make_heap cmp v first middle c of
        None \<Rightarrow> None
      | Some (v1, c1) \<Rightarrow> heap_select_loop cmp v1 first middle lst middle c1)"

definition partial_sort ::
  "'a cmp_fn \<Rightarrow> 'a list \<Rightarrow> nat \<Rightarrow> nat \<Rightarrow> nat \<Rightarrow> nat \<Rightarrow> ('a list \<times> nat) option" where
  "partial_sort cmp v first middle lst c =
     (case heap_select cmp v first middle lst c of
        None \<Rightarrow> None
      | Some (v1, c1) \<Rightarrow> sort_heap cmp v1 first middle c1)"

text \<open>
  \<open>__introsort_loop(first, last, depth_limit, comp)\<close>:
  \<open>while (last - first > 16) {
  if (depth_limit == 0) { __partial_sort(first, last, last, comp); return; }
  --depth_limit; cut = __unguarded_partition_pivot(first, last, comp);
  __introsort_loop(cut, last, depth_limit, comp); last = cut; }\<close>
\<close>

function introsort_loop ::
  "'a cmp_fn \<Rightarrow> 'a list \<Rightarrow> nat \<Rightarrow> nat \<Rightarrow> nat \<Rightarrow> nat \<Rightarrow> ('a list \<times> nat) option" where
  "introsort_loop cmp v first lst depth_limit c =
     (if lst - first > S_threshold then
        (if depth_limit = 0 then partial_sort cmp v first lst lst c
         else
           (case unguarded_partition_pivot cmp v first lst c of
              None \<Rightarrow> None
            | Some (v1, cut_it, c1) \<Rightarrow>
                (case introsort_loop cmp v1 cut_it lst (depth_limit - 1) c1 of
                   None \<Rightarrow> None
                 | Some (v2, c2) \<Rightarrow> introsort_loop cmp v2 first cut_it (depth_limit - 1) c2)))
      else Some (v, c))"
  by pat_completeness auto
termination
  by (relation "measure (\<lambda>(cmp, v, first, lst, depth_limit, c). depth_limit)") auto

declare introsort_loop.simps [simp del]

text \<open>
  \<open>std::sort(first, last, comp)\<close>, on the whole vector as \<open>std_sort\<close> calls it:
  \<open>if (first != last) {
  __introsort_loop(first, last, __lg(last - first) * 2, comp);
  __final_insertion_sort(first, last, comp); }\<close>
\<close>

definition libstdcxx_sort :: "'a sort_fn" where
  "libstdcxx_sort cmp v =
     (if 0 \<noteq> length v then
        (case introsort_loop cmp v 0 (length v) (std_lg (length v) * 2) 0 of
           None \<Rightarrow> None
         | Some (v1, c1) \<Rightarrow> final_insertion_sort cmp v1 0 (length v) c1)
      else Some (v, 0))"


section \<open>The animator's run session (sorting_animator.h, sorting_animator.cpp, main.cpp)\<close>

text \<open>
  Of the animator the model keeps what a run of the sorts reads and writes: the mode, the
  registered algorithms, the quantity \<open>sort_n\<close>, the datasets \<open>sort_data\<close>, the queue of
  selected algorithms and the thread handles. Windows, texts and scroll bars are left out.
\<close>

datatype Mode = START | HELP | CONFIG | SORTING | SORTED

text \<open>
  \<open>struct SortingDatum { int value; int timer; }\<close>. The field \<open>value\<close> is called
  \<open>value_d\<close> here (\<open>value\<close> is a command of Isabelle). The values of a run are
  \<open>1, ..., sort_n\<close>, and \<open>sort_n\<close> is read by \<open>std::stoi\<close>, so they fit an \<open>int\<close>.
\<close>

record SortingDatum =
  value_d :: int
  timer :: int

text \<open>The constructor \<open>SortingDatum(int v) : value(v), timer(0)\<close>.\<close>

definition SortingDatum_of :: "int \<Rightarrow> SortingDatum" where
  "SortingDatum_of v = \<lparr>value_d = v, timer = 0\<rparr>"

text \<open>
  The comparator of the animator's constructor:
  \<open>x.timer = 5; y.timer = 5; sort_draw_data(); return x.value <= y.value;\<close>.
  Its answer is the model's \<open>sort_cmp\<close>; what it does to the timers and the window is
  not part of the model of the sorts (see \<open>sort_launch\<close> for the timers a run leaves,
  and \<open>sort_cmp_call\<close> for one call with its writes).
\<close>

definition sort_cmp :: "SortingDatum cmp_fn" where
  "sort_cmp x y \<longleftrightarrow> value_d x \<le> value_d y"

text \<open>
  \<open>struct SortingAlgo { std::string name; bool selected; sort_fn<SortingDatum> sort; }\<close>;
  the field \<open>sort\<close> is \<open>sort_f\<close> here (\<open>sort\<close> is a list function of HOL).
\<close>

record SortingAlgo =
  name :: string
  selected :: bool
  sort_f :: "SortingDatum sort_fn"

text \<open>
  A \<open>std::thread\<close> handle: \<open>std::thread()\<close> stands for no thread; \<open>Finished q i\<close> is the
  handle of a thread that ran algorithm \<open>q\<close> on \<open>sort_data[i]\<close> and has been joined.
\<close>

datatype thread = Not_a_thread | Finished nat nat

record SortingAnimator =
  mode :: Mode
  sort_algos :: "SortingAlgo list"
  sort_n :: nat
  sort_data :: "SortingDatum list list"
  sort_queue :: "nat list"
  sort_threads :: "thread list"

text \<open>\<open>add_sort\<close> registers an algorithm, not selected; main.cpp registers nine.\<close>

definition add_sort :: "string \<Rightarrow> SortingDatum sort_fn \<Rightarrow> SortingAnimator \<Rightarrow> SortingAnimator" where
  "add_sort nm srt a =
     a\<lparr>sort_algos := sort_algos a @ [\<lparr>name = nm, selected = False, sort_f = srt\<rparr>]\<rparr>"

definition registered_sorts ::
  "(nat \<Rightarrow> nat \<Rightarrow> nat) \<Rightarrow> SortingDatum sort_fn \<Rightarrow> (string \<times> SortingDatum sort_fn) list" where
  "registered_sorts rnd lib =
     [(''Selection'', selection_sort),
      (''Insertion'', insertion_sort),
      (''Bubble'', bubble_sort),
      (''Merge'', merge_sort),
      (''Parallel Merge'', pmerge_sort),
      (''Quicksort'', quick_sort),
      (''Parallel Quicksort'', pquick_sort),
      (''Randomized Parallel Quicksort'', rpquick_sort rnd),
      (''std::sort'', std_sort lib)]"

text \<open>
  The animator as its constructor leaves it (mode \<open>START\<close>, \<open>sort_n = 100\<close>, empty
  vectors), and as \<open>main\<close> leaves it before the event loop.
\<close>

definition new_animator :: SortingAnimator where
  "new_animator =
     \<lparr>mode = START, sort_algos = [], sort_n = 100, sort_data = [], sort_queue = [],
      sort_threads = []\<rparr>"

definition main_animator :: "(nat \<Rightarrow> nat \<Rightarrow> nat) \<Rightarrow> SortingDatum sort_fn \<Rightarrow> SortingAnimator" where
  "main_animator rnd lib = fold (\<lambda>(nm, srt). add_sort nm srt) (registered_sorts rnd lib) new_animator"

subsection \<open>sort_setup\<close>

text \<open>
  The first loop of \<open>sort_setup\<close>: every selected algorithm's index is pushed on the queue,
  together with an empty thread handle.
\<close>

function select_loop :: "SortingAnimator \<Rightarrow> nat \<Rightarrow> SortingAnimator" where
  "select_loop a i =
     (if i < length (sort_algos a) then
        (if selected (sort_algos a ! i) then
           select_loop
             (a\<lparr>sort_queue := sort_queue a @ [i],
                sort_threads := sort_threads a @ [Not_a_thread]\<rparr>) (i + 1)
         else select_loop a (i + 1))
      else a)"
  by pat_completeness auto
termination
  by (relation "measure (\<lambda>(a, i). length (sort_algos a) - i)") auto

declare select_loop.simps [simp del]

text \<open>\<open>for (i = 0; i < sort_n; i++) sort_data[0].push_back(SortingDatum(i + 1))\<close>\<close>

function fill_loop :: "SortingDatum list list \<Rightarrow> nat \<Rightarrow> nat \<Rightarrow> SortingDatum list list" where
  "fill_loop d n i =
     (if i < n then fill_loop (d[0 := d ! 0 @ [SortingDatum_of (int i + 1)]]) n (i + 1)
      else d)"
  by pat_completeness auto
termination
  by (relation "measure (\<lambda>(d, n, i). n - i)") auto

declare fill_loop.simps [simp del]

text \<open>
  \<open>for (i = 0; i < sort_n; i++) sort_data[j].push_back(SortingDatum(sort_data[0][i].value))\<close>
\<close>

function copy_inner ::
  "SortingDatum list list \<Rightarrow> nat \<Rightarrow> nat \<Rightarrow> nat \<Rightarrow> SortingDatum list list" where
  "copy_inner d j n i =
     (if i < n then
        copy_inner (d[j := d ! j @ [SortingDatum_of (value_d (d ! 0 ! i))]]) j n (i + 1)
      else d)"
  by pat_completeness auto
termination
  by (relation "measure (\<lambda>(d, j, n, i). n - i)") auto

declare copy_inner.simps [simp del]

text \<open>
  \<open>for (j = 1; j < sort_queue.size() + 1; j++) { sort_data.push_back(...); ... }\<close>:
  one more dataset for each \<open>j\<close> from \<open>1\<close> to the length \<open>k\<close> of the queue.
\<close>

function copy_outer ::
  "SortingDatum list list \<Rightarrow> nat \<Rightarrow> nat \<Rightarrow> nat \<Rightarrow> SortingDatum list list" where
  "copy_outer d k n j =
     (if j < k + 1 then copy_outer (copy_inner (d @ [[]]) j n 0) k n (j + 1)
      else d)"
  by pat_completeness auto
termination
  by (relation "measure (\<lambda>(d, k, n, j). k + 1 - j)") auto

declare copy_outer.simps [simp del]

text \<open>
  \<open>sort_setup\<close>. \<open>std::random_shuffle\<close> belongs to the standard library; the model takes
  the permutation it applies as the parameter \<open>shuffle\<close>. With no algorithm selected the
  function returns before any dataset is made. Every index the function uses lies inside
  its vector, whatever the animator held before, so the model needs no failure case.
\<close>

definition sort_setup ::
  "(SortingDatum list \<Rightarrow> SortingDatum list) \<Rightarrow> SortingAnimator \<Rightarrow> SortingAnimator" where
  "sort_setup shuffle a =
     (let a1 = select_loop a 0 in
      if length (sort_queue a1) = 0 then a1\<lparr>mode := SORTED\<rparr>
      else
        (let d1 = fill_loop (sort_data a1 @ [[]]) (sort_n a1) 0;
             d2 = d1[0 := shuffle (d1 ! 0)];
             d3 = copy_outer d2 (length (sort_queue a1)) (sort_n a1) 1
         in a1\<lparr>sort_data := d3\<rparr>))"

text \<open>
  Both callers of \<open>sort_setup\<close> (the Enter key and the mouse click on "Continue" of the
  configuration screen) go on with \<open>mode = Mode::SORTING\<close>.
\<close>

definition config_continue ::
  "(SortingDatum list \<Rightarrow> SortingDatum list) \<Rightarrow> SortingAnimator \<Rightarrow> SortingAnimator" where
  "config_continue shuffle a = (sort_setup shuffle a)\<lparr>mode := SORTING\<rparr>"

subsection \<open>sort_launch\<close>

text \<open>
  \<open>sort_launch\<close> starts one thread for each entry \<open>i\<close> of the queue, running
  \<open>sort_algos[sort_queue[i]].sort(sort_data[i], sort_cmp)\<close>, and joins them all. Thread
  \<open>i\<close> is handed \<open>sort_data[i]\<close> and nothing else, so the model runs the threads one after
  the other. While the threads run, the comparator sets timers to 5 and every redraw
  counts the timers of the datasets \<open>0, ..., sort_threads.size() - 1\<close> down; what the
  timers of dataset \<open>i\<close> hold when all threads are joined depends on how the threads
  interleave, and the model takes it as the parameter \<open>tm i\<close>. A sort that does not return
  keeps \<open>sort_launch\<close> from returning.
\<close>

definition set_timers :: "(nat \<Rightarrow> int) \<Rightarrow> SortingDatum list \<Rightarrow> SortingDatum list" where
  "set_timers t xs = map (\<lambda>j. (xs ! j)\<lparr>timer := t j\<rparr>) [0..<length xs]"

function run_threads ::
  "(nat \<Rightarrow> nat \<Rightarrow> int) \<Rightarrow> SortingAnimator \<Rightarrow> nat \<Rightarrow> SortingAnimator option" where
  "run_threads tm a i =
     (if i < length (sort_queue a) then
        (if i < length (sort_threads a) \<and> i < length (sort_data a) \<and>
            sort_queue a ! i < length (sort_algos a) then
           (case sort_f (sort_algos a ! (sort_queue a ! i)) sort_cmp (sort_data a ! i) of
              None \<Rightarrow> None
            | Some (out, n) \<Rightarrow>
                run_threads tm
                  (a\<lparr>sort_data := (sort_data a)[i := set_timers (tm i) out],
                     sort_threads := (sort_threads a)[i := Finished (sort_queue a ! i) i]\<rparr>)
                  (i + 1))
         else None)
      else Some a)"
  by pat_completeness auto
termination
  by (relation "measure (\<lambda>(tm, a, i). length (sort_queue a) - i)") auto

declare run_threads.simps [simp del]

text \<open>
  \<open>sort_draw_data(true)\<close>, the last redraw: it reads \<open>sort_data[i][j]\<close> and the name of
  \<open>sort_algos[sort_queue[i]]\<close> for every \<open>i < sort_threads.size()\<close> and \<open>j < sort_n\<close>, and
  with \<open>end = true\<close> it writes nothing of the model's state.
\<close>

definition sort_draw_data_end :: "SortingAnimator \<Rightarrow> SortingAnimator option" where
  "sort_draw_data_end a =
     (if list_all (\<lambda>i. i < length (sort_data a) \<and> sort_n a \<le> length (sort_data a ! i) \<and>
            i < length (sort_queue a) \<and> sort_queue a ! i < length (sort_algos a))
           [0..<length (sort_threads a)]
      then Some a else None)"

definition sort_launch :: "(nat \<Rightarrow> nat \<Rightarrow> int) \<Rightarrow> SortingAnimator \<Rightarrow> SortingAnimator option" where
  "sort_launch tm a =
     (case run_threads tm a 0 of
        None \<Rightarrow> None
      | Some a1 \<Rightarrow>
          (case sort_draw_data_end a1 of
             None \<Rightarrow> None
           | Some a2 \<Rightarrow> Some (a2\<lparr>mode := SORTED\<rparr>)))"

subsection \<open>sort_draw_data and the comparator's side effects\<close>

text \<open>
  \<open>sort_draw_data(bool end = false)\<close> redraws, under the lock \<open>window_m\<close>, every
  \<open>sort_data[i][j]\<close> with \<open>i < sort_threads.size()\<close> and \<open>j < sort_n\<close>:
  \<open>if (end || !sort_data[i][j].timer) (white) else { (red); sort_data[i][j].timer--; }\<close>,
  and after each dataset the name \<open>sort_algos[sort_queue[i]].name\<close>. What it writes of
  the model's state are the timers; \<open>fin\<close> is the parameter \<open>end\<close>.
\<close>

function draw_inner ::
  "SortingDatum list list \<Rightarrow> bool \<Rightarrow> nat \<Rightarrow> nat \<Rightarrow> nat \<Rightarrow> SortingDatum list list option" where
  "draw_inner d fin n i j =
     (if j < n then
        (if i < length d \<and> j < length (d ! i) then
           (if fin \<or> timer (d ! i ! j) = 0 then draw_inner d fin n i (j + 1)
            else
              draw_inner (d[i := (d ! i)[j := (d ! i ! j)\<lparr>timer := timer (d ! i ! j) - 1\<rparr>]])
                fin n i (j + 1))
         else None)
      else Some d)"
  by pat_completeness auto
termination
  by (relation "measure (\<lambda>(d, fin, n, i, j). n - j)") auto

declare draw_inner.simps [simp del]

function draw_outer ::
  "SortingAnimator \<Rightarrow> SortingDatum list list \<Rightarrow> bool \<Rightarrow> nat \<Rightarrow> SortingDatum list list option" where
  "draw_outer a d fin i =
     (if i < length (sort_threads a) then
        (case draw_inner d fin (sort_n a) i 0 of
           None \<Rightarrow> None
         | Some d' \<Rightarrow>
             (if i < length (sort_queue a) \<and> sort_queue a ! i < length (sort_algos a) then
                draw_outer a d' fin (i + 1)
              else None))
      else Some d)"
  by pat_completeness auto
termination
  by (relation "measure (\<lambda>(a, d, fin, i). length (sort_threads a) - i)") auto

declare draw_outer.simps [simp del]

definition sort_draw_data :: "bool \<Rightarrow> SortingAnimator \<Rightarrow> SortingAnimator option" where
  "sort_draw_data fin a =
     (case draw_outer a (sort_data a) fin 0 of
        None \<Rightarrow> None
      | Some d \<Rightarrow> Some (a\<lparr>sort_data := d\<rparr>))"

text \<open>
  A call of the animator's comparator, with all it does:
  \<open>x.timer = 5; y.timer = 5; sort_draw_data(); return x.value <= y.value;\<close>.
  The thread \<open>i\<close> of \<open>sort_launch\<close> runs its algorithm on \<open>sort_data[i]\<close>, so each of the
  references \<open>x\<close> and \<open>y\<close> is either an element \<open>sort_data[i][p]\<close> of that dataset
  (\<open>Elem p\<close>) or a copy of one that the algorithm keeps in a variable of its own (\<open>Temp\<close>,
  as \<open>vp\<close> in \<open>partition\<close>), whose timer is no part of the animator's state. The answer
  is the one of \<open>sort_cmp\<close>; the redraw counts down the timers of all the datasets
  \<open>0, ..., sort_threads.size() - 1\<close>, whichever thread calls.
\<close>

datatype operand = Elem nat | Temp SortingDatum

definition operand_datum :: "SortingAnimator \<Rightarrow> nat \<Rightarrow> operand \<Rightarrow> SortingDatum" where
  "operand_datum a i x = (case x of Elem p \<Rightarrow> sort_data a ! i ! p | Temp t \<Rightarrow> t)"

definition set_timer :: "nat \<Rightarrow> operand \<Rightarrow> SortingAnimator \<Rightarrow> SortingAnimator option" where
  "set_timer i x a =
     (case x of
        Elem p \<Rightarrow>
          (if i < length (sort_data a) \<and> p < length (sort_data a ! i) then
             Some (a\<lparr>sort_data :=
               (sort_data a)[i := (sort_data a ! i)[p := (sort_data a ! i ! p)\<lparr>timer := 5\<rparr>]]\<rparr>)
           else None)
      | Temp t \<Rightarrow> Some a)"

definition sort_cmp_call ::
  "SortingAnimator \<Rightarrow> nat \<Rightarrow> operand \<Rightarrow> operand \<Rightarrow> (SortingAnimator \<times> bool) option" where
  "sort_cmp_call a i x y =
     (case set_timer i x a of
        None \<Rightarrow> None
      | Some a1 \<Rightarrow>
          (case set_timer i y a1 of
             None \<Rightarrow> None
           | Some a2 \<Rightarrow>
               (case sort_draw_data False a2 of
                  None \<Rightarrow> None
                | Some a3 \<Rightarrow>
                    Some (a3, value_d (operand_datum a3 i x) \<le> value_d (operand_datum a3 i y)))))"

subsection \<open>handle_key_sorted\<close>

text \<open>The keys \<open>handle_key_sorted\<close> tells apart (\<open>sf::Keyboard::Escape\<close>, ...), and any other key.\<close>

datatype Key = Key_Escape | Key_Enter | Key_Backspace | Key_R | Key_Other

text \<open>
  The restart loops of the key \<open>R\<close>:
  \<open>sort_data[i][j].value = sort_data[sort_queue.size()][j].value\<close> for every
  \<open>i < sort_queue.size()\<close> and \<open>j < sort_n\<close>; \<open>k\<close> is \<open>sort_queue.size()\<close>.
\<close>

function restart_inner ::
  "SortingDatum list list \<Rightarrow> nat \<Rightarrow> nat \<Rightarrow> nat \<Rightarrow> nat \<Rightarrow> SortingDatum list list option" where
  "restart_inner d k n i j =
     (if j < n then
        (if i < length d \<and> k < length d \<and> j < length (d ! i) \<and> j < length (d ! k) then
           restart_inner
             (d[i := (d ! i)[j := (d ! i ! j)\<lparr>value_d := value_d (d ! k ! j)\<rparr>]]) k n i (j + 1)
         else None)
      else Some d)"
  by pat_completeness auto
termination
  by (relation "measure (\<lambda>(d, k, n, i, j). n - j)") auto

declare restart_inner.simps [simp del]

function restart_outer ::
  "SortingDatum list list \<Rightarrow> nat \<Rightarrow> nat \<Rightarrow> nat \<Rightarrow> SortingDatum list list option" where
  "restart_outer d k n i =
     (if i < k then
        (case restart_inner d k n i 0 of
           None \<Rightarrow> None
         | Some d' \<Rightarrow> restart_outer d' k n (i + 1))
      else Some d)"
  by pat_completeness auto
termination
  by (relation "measure (\<lambda>(d, k, n, i). k - i)") auto

declare restart_outer.simps [simp del]

text \<open>
  Escape, Enter and Backspace end the session: when there is a dataset, every dataset is
  cleared and the three vectors are emptied; the mode becomes \<open>CONFIG\<close>.
\<close>

definition end_session :: "SortingAnimator \<Rightarrow> SortingAnimator" where
  "end_session a =
     (if length (sort_data a) > 0 then
        a\<lparr>sort_data := [], sort_queue := [], sort_threads := [], mode := CONFIG\<rparr>
      else a\<lparr>mode := CONFIG\<rparr>)"

definition handle_key_sorted :: "Key \<Rightarrow> SortingAnimator \<Rightarrow> SortingAnimator option" where
  "handle_key_sorted key a =
     (case key of
        Key_Escape \<Rightarrow> Some (end_session a)
      | Key_Enter \<Rightarrow> Some (end_session a)
      | Key_Backspace \<Rightarrow> Some (end_session a)
      | Key_R \<Rightarrow>
          (case restart_outer (sort_data a) (length (sort_queue a)) (sort_n a) 0 of
             None \<Rightarrow> None
           | Some d \<Rightarrow> Some (a\<lparr>sort_data := d, mode := SORTING\<rparr>))
      | Key_Other \<Rightarrow> Some a)"

text \<open>
  The datasets \<open>sort_launch\<close> hands to the sort threads: \<open>sort_data[i]\<close> for
  \<open>i < sort_queue.size()\<close>, one for each selected algorithm.
\<close>

definition per_algorithm_copies :: "SortingAnimator \<Rightarrow> SortingDatum list list" where
  "per_algorithm_copies a = take (length (sort_queue a)) (sort_data a)"

section \<open>Notions used in the statements and proofs\<close>

text \<open>
  What the sorts need of a comparator: any two elements are comparable and the relation
  is transitive (a total preorder, as \<open>a.value <= b.value\<close> is).
\<close>

definition total_preorder :: "'a cmp_fn \<Rightarrow> bool" where
  "total_preorder cmp \<longleftrightarrow>
     (\<forall>x y. cmp x y \<or> cmp y x) \<and> (\<forall>x y z. cmp x y \<longrightarrow> cmp y z \<longrightarrow> cmp x z)"

text \<open>
  What the loop of \<open>merge\<close> computes, on lists: \<open>merge_lists cmp l r\<close> follows the loop's
  cases (left run used up, right run used up, both runs have an element).
\<close>

fun merge_lists :: "'a cmp_fn \<Rightarrow> 'a list \<Rightarrow> 'a list \<Rightarrow> 'a list" where
  "merge_lists cmp [] [] = []"
| "merge_lists cmp [] (y # ys) = y # merge_lists cmp [] ys"
| "merge_lists cmp (x # xs) [] = x # merge_lists cmp xs []"
| "merge_lists cmp (x # xs) (y # ys) =
     (if cmp x y then x # merge_lists cmp xs (y # ys) else y # merge_lists cmp (x # xs) ys)"

text \<open>
  What \<open>merge_sort_helper\<close> computes on its range: split at the middle, sort both halves,
  merge.
\<close>

function msort_list :: "'a cmp_fn \<Rightarrow> 'a list \<Rightarrow> 'a list" where
  "msort_list cmp xs =
     (if length xs \<le> 1 then xs
      else merge_lists cmp (msort_list cmp (take (length xs div 2) xs))
             (msort_list cmp (drop (length xs div 2) xs)))"
  by pat_completeness auto
termination
  by (relation "measure (\<lambda>(cmp, xs). length xs)") auto

declare msort_list.simps [simp del]

text \<open>The base sequence \<open>1, ..., n\<close> with timers 0, and a fresh copy of a dataset's values.\<close>

definition base_data :: "nat \<Rightarrow> SortingDatum list" where
  "base_data n = map (\<lambda>t. SortingDatum_of (int t + 1)) [0..<n]"

definition fresh_copy :: "SortingDatum list \<Rightarrow> nat \<Rightarrow> SortingDatum list" where
  "fresh_copy d0 n = map (\<lambda>t. SortingDatum_of (value_d (d0 ! t))) [0..<n]"

text \<open>A dataset whose first \<open>n\<close> values are overwritten by those of \<open>src\<close>.\<close>

definition restored :: "SortingDatum list \<Rightarrow> SortingDatum list \<Rightarrow> nat \<Rightarrow> SortingDatum list" where
  "restored src dst n =
     map (\<lambda>t. (dst ! t)\<lparr>value_d := value_d (src ! t)\<rparr>) [0..<n] @ drop n dst"

text \<open>
  What one redraw does to a datum and to a dataset: a timer that is not \<open>0\<close> is counted
  down, among the first \<open>n\<close> data, unless it is the last redraw.
\<close>

definition draw_datum :: "bool \<Rightarrow> SortingDatum \<Rightarrow> SortingDatum" where
  "draw_datum fin x = (if fin \<or> timer x = 0 then x else x\<lparr>timer := timer x - 1\<rparr>)"

definition draw_row :: "bool \<Rightarrow> nat \<Rightarrow> SortingDatum list \<Rightarrow> SortingDatum list" where
  "draw_row fin n xs = map (draw_datum fin) (take n xs) @ drop n xs"

section \<open>Correctness of the sort procedures\<close>

lemma tp_total: "total_preorder cmp \<Longrightarrow> \<not> cmp x y \<Longrightarrow> cmp y x"
  unfolding total_preorder_def by blast

lemma tp_refl: "total_preorder cmp \<Longrightarrow> cmp x x"
  unfolding total_preorder_def by blast

lemma tp_trans: "total_preorder cmp \<Longrightarrow> cmp x y \<Longrightarrow> cmp y z \<Longrightarrow> cmp x z"
  unfolding total_preorder_def by blast

subsection \<open>Selection sort\<close>

lemma sel_inner_spec:
  shows "total_preorder cmp \<Longrightarrow> i \<le> smallest \<Longrightarrow> smallest < j \<Longrightarrow> j \<le> length v \<Longrightarrow>
     (\<forall>k. i \<le> k \<and> k < j \<longrightarrow> cmp (v ! smallest) (v ! k)) \<Longrightarrow>
     \<exists>s c'. sel_inner cmp v smallest j c = Some (s, c') \<and> i \<le> s \<and> s < length v \<and>
       (\<forall>k. i \<le> k \<and> k < length v \<longrightarrow> cmp (v ! s) (v ! k))"
proof (induction cmp v smallest j c rule: sel_inner.induct)
  case (1 cmp v smallest j c)
  from "1.prems" have tp: "total_preorder cmp" by simp
  show ?case
  proof (cases "j < length v")
    case False
    then have eq: "sel_inner cmp v smallest j c = Some (smallest, c)"
      by (simp add: sel_inner.simps [of cmp v smallest j c])
    from False "1.prems" have "j = length v" by simp
    with "1.prems" eq show ?thesis by auto
  next
    case jlt: True
    from "1.prems" jlt have slt: "smallest < length v" by simp
    show ?thesis
    proof (cases "cmp (v ! j) (v ! smallest)")
      case True
      have inv: "\<forall>k. i \<le> k \<and> k < j + 1 \<longrightarrow> cmp (v ! j) (v ! k)"
      proof (intro allI impI)
        fix k assume k: "i \<le> k \<and> k < j + 1"
        show "cmp (v ! j) (v ! k)"
        proof (cases "k = j")
          case True then show ?thesis using tp_refl [OF tp] by simp
        next
          case False
          with k have "k < j" by simp
          with k "1.prems" have "cmp (v ! smallest) (v ! k)" by simp
          with True tp_trans [OF tp] show ?thesis by blast
        qed
      qed
      from "1.prems" have "i \<le> j" "j < j + 1" "j + 1 \<le> length v" using jlt by simp_all
      from "1.IH"(1) [OF jlt slt True tp this inv] True jlt slt
      show ?thesis by (simp add: sel_inner.simps [of cmp v smallest j c])
    next
      case False
      have inv: "\<forall>k. i \<le> k \<and> k < j + 1 \<longrightarrow> cmp (v ! smallest) (v ! k)"
      proof (intro allI impI)
        fix k assume k: "i \<le> k \<and> k < j + 1"
        show "cmp (v ! smallest) (v ! k)"
        proof (cases "k = j")
          case True then show ?thesis using tp_total [OF tp False] by simp
        next
          case False
          with k have "k < j" by simp
          with k "1.prems" show ?thesis by simp
        qed
      qed
      from "1.prems" have "i \<le> smallest" "smallest < j + 1" "j + 1 \<le> length v" using jlt by simp_all
      from "1.IH"(2) [OF jlt slt False tp this inv] False jlt slt
      show ?thesis by (simp add: sel_inner.simps [of cmp v smallest j c])
    qed
  qed
qed


lemma sel_outer_spec:
  "total_preorder cmp \<Longrightarrow> i \<le> length v \<Longrightarrow>
   (\<forall>a b. a < b \<and> b < length v \<and> a < i \<longrightarrow> cmp (v ! a) (v ! b)) \<Longrightarrow>
   \<exists>out c'. sel_outer cmp v i c = Some (out, c') \<and> mset out = mset v \<and> sorted_wrt cmp out"
proof (induction cmp v i c rule: sel_outer.induct)
  case (1 cmp v i c)
  from "1.prems" have tp: "total_preorder cmp" by simp
  show ?case
  proof (cases "i < length v")
    case False
    then have eq: "sel_outer cmp v i c = Some (v, c)"
      by (simp add: sel_outer.simps [of cmp v i c])
    from False "1.prems" have "\<forall>a b. a < b \<and> b < length v \<longrightarrow> cmp (v ! a) (v ! b)"
      by auto
    then have "sorted_wrt cmp v" by (simp add: sorted_wrt_iff_nth_less)
    with eq show ?thesis by simp
  next
    case ilt: True
    have "\<forall>k. i \<le> k \<and> k < i + 1 \<longrightarrow> cmp (v ! i) (v ! k)"
      using tp_refl [OF tp] by (auto simp: le_less_Suc_eq)
    from sel_inner_spec [of cmp i i "i + 1" v c] tp this ilt
    obtain s c1 where inner: "sel_inner cmp v i (i + 1) c = Some (s, c1)"
      and s: "i \<le> s" "s < length v"
      and smin: "\<forall>k. i \<le> k \<and> k < length v \<longrightarrow> cmp (v ! s) (v ! k)"
      by auto
    let ?v = "v[i := v ! s, s := v ! i]"
    have len: "length ?v = length v" by simp
    have inv: "\<forall>a b. a < b \<and> b < length ?v \<and> a < i + 1 \<longrightarrow> cmp (?v ! a) (?v ! b)"
    proof (intro allI impI)
      fix a b assume ab: "a < b \<and> b < length ?v \<and> a < i + 1"
      then have b: "b < length v" and altb: "a < b" and ai: "a \<le> i" by simp_all
      show "cmp (?v ! a) (?v ! b)"
      proof (cases "a < i")
        case True
        then have va: "?v ! a = v ! a" using s ilt by (simp add: nth_list_update)
        have "\<exists>b'. a < b' \<and> b' < length v \<and> ?v ! b = v ! b'"
        proof (cases "b = s")
          case True
          then have "?v ! b = v ! i" using s by simp
          with \<open>a < i\<close> ilt show ?thesis by blast
        next
          case bs: False
          show ?thesis
          proof (cases "b = i")
            case True
            with bs have "?v ! b = v ! s" using ilt by simp
            moreover have "a < s" using \<open>a < i\<close> s by simp
            ultimately show ?thesis using s by blast
          next
            case False
            with bs have "?v ! b = v ! b" by simp
            with altb b show ?thesis by blast
          qed
        qed
        then obtain b' where "a < b'" "b' < length v" "?v ! b = v ! b'" by blast
        with "1.prems" True va show ?thesis by auto
      next
        case False
        with ai have ai: "a = i" by simp
        have va: "?v ! a = v ! s" using s ilt ai by (auto simp: nth_list_update)
        have "\<exists>b'. i \<le> b' \<and> b' < length v \<and> ?v ! b = v ! b'"
        proof (cases "b = s")
          case True
          then have "?v ! b = v ! i" using s by simp
          with ilt show ?thesis by blast
        next
          case False
          with altb ai have "?v ! b = v ! b" by simp
          with altb ai b show ?thesis by (metis less_imp_le_nat)
        qed
        then obtain b' where "i \<le> b'" "b' < length v" "?v ! b = v ! b'" by blast
        with smin va show ?thesis by auto
      qed
    qed
    from ilt have "i + 1 \<le> length ?v" by simp
    from "1.IH" [OF ilt inner refl s(2) tp this inv]
    obtain out c' where rec: "sel_outer cmp ?v (i + 1) c1 = Some (out, c')"
      and out: "mset out = mset ?v" "sorted_wrt cmp out" by blast
    from ilt inner s rec have eq: "sel_outer cmp v i c = Some (out, c')"
      by (simp add: sel_outer.simps [of cmp v i c])
    have "mset ?v = mset v" using ilt s by (simp add: mset_swap)
    with eq out show ?thesis by simp
  qed
qed

lemma selection_sort_correct:
  assumes "total_preorder cmp"
  shows "\<exists>out n. selection_sort cmp v = Some (out, n) \<and> mset out = mset v \<and> sorted_wrt cmp out"
  unfolding selection_sort_def using sel_outer_spec [OF assms, of 0 v 0] by simp


subsection \<open>Insertion sort\<close>

lemma ins_find_spec:
  "j \<le> i \<Longrightarrow> i < length v \<Longrightarrow> (\<forall>k. k < j \<longrightarrow> cmp (v ! k) (v ! i)) \<Longrightarrow>
   \<exists>j' c'. ins_find cmp v i j c = Some (j', c') \<and> j' \<le> i \<and>
     (\<forall>k. k < j' \<longrightarrow> cmp (v ! k) (v ! i)) \<and> (j' < i \<longrightarrow> \<not> cmp (v ! j') (v ! i))"
proof (induction cmp v i j c rule: ins_find.induct)
  case (1 cmp v i j c)
  show ?case
  proof (cases "j < i")
    case False
    then have "ins_find cmp v i j c = Some (j, c)"
      by (simp add: ins_find.simps [of cmp v i j c])
    with False "1.prems" show ?thesis by auto
  next
    case jlt: True
    show ?thesis
    proof (cases "cmp (v ! j) (v ! i)")
      case False
      with jlt "1.prems" have "ins_find cmp v i j c = Some (j, c + 1)"
        by (simp add: ins_find.simps [of cmp v i j c])
      with False "1.prems" show ?thesis by auto
    next
      case True
      have inv: "\<forall>k. k < j + 1 \<longrightarrow> cmp (v ! k) (v ! i)"
        using True "1.prems" by (auto simp: less_Suc_eq)
      from jlt have "j + 1 \<le> i" by simp
      from "1.IH" [OF jlt "1.prems"(2) True this "1.prems"(2) inv]
      obtain j' c' where "ins_find cmp v i (j + 1) (c + 1) = Some (j', c')"
        and post: "j' \<le> i" "\<forall>k. k < j' \<longrightarrow> cmp (v ! k) (v ! i)"
          "j' < i \<longrightarrow> \<not> cmp (v ! j') (v ! i)"
        by blast
      with jlt True "1.prems" have "ins_find cmp v i j c = Some (j', c')"
        by (simp add: ins_find.simps [of cmp v i j c])
      with post show ?thesis by blast
    qed
  qed
qed

lemma ins_shift_spec:
  "j \<le> i \<Longrightarrow> i < length v \<Longrightarrow>
   ins_shift v i j = Some (take j v @ [v ! i] @ drop j (take i v) @ drop (i + 1) v)"
proof (induction v i j rule: ins_shift.induct)
  case (1 v i j)
  show ?case
  proof (cases "j < i")
    case False
    with "1.prems" have ji: "j = i" by simp
    have "take i v @ [v ! i] @ drop (i + 1) v = v"
      using "1.prems" by (simp add: id_take_nth_drop [symmetric])
    moreover have "ins_shift v i j = Some v"
      using False by (simp add: ins_shift.simps [of v i j])
    ultimately show ?thesis using ji by simp
  next
    case jlt: True
    let ?w = "v[j := v ! i, i := v ! j]"
    from "1.prems" jlt have ilen: "i < length ?w" and j1: "j + 1 \<le> i" by simp_all
    have step: "ins_shift v i j = ins_shift ?w i (j + 1)"
      using jlt "1.prems" by (simp add: ins_shift.simps [of v i j])
    have t1: "take (j + 1) ?w = take j v @ [v ! i]"
      using jlt "1.prems" by (simp add: take_Suc_conv_app_nth)
    have t2: "?w ! i = v ! j" using "1.prems" by simp
    have t3: "drop (j + 1) (take i ?w) = drop (j + 1) (take i v)"
      using jlt by (simp add: drop_take)
    have t4: "drop (i + 1) ?w = drop (i + 1) v" using jlt by simp
    have t5: "drop j (take i v) = v ! j # drop (j + 1) (take i v)"
      using jlt "1.prems" Cons_nth_drop_Suc [of j "take i v"] by simp
    from "1.IH" [OF jlt "1.prems"(2) j1 ilen]
    have "ins_shift ?w i (j + 1) =
       Some (take (j + 1) ?w @ [?w ! i] @ drop (j + 1) (take i ?w) @ drop (i + 1) ?w)" .
    then show ?thesis
      unfolding step t1 t2 t3 t4 t5 by simp
  qed
qed


lemma sorted_wrt_insert_mid:
  assumes tp: "total_preorder cmp"
    and srt: "sorted_wrt cmp (A @ B)"
    and le: "\<forall>a \<in> set A. cmp a x"
    and ge: "B \<noteq> [] \<longrightarrow> cmp x (hd B)"
  shows "sorted_wrt cmp (A @ [x] @ B)"
proof -
  from srt have sA: "sorted_wrt cmp A" and sB: "sorted_wrt cmp B"
    and AB: "\<forall>a \<in> set A. \<forall>b \<in> set B. cmp a b"
    by (auto simp: sorted_wrt_append)
  have xB: "\<forall>b \<in> set B. cmp x b"
  proof (cases B)
    case Nil
    then show ?thesis by simp
  next
    case (Cons b0 B')
    with ge have "cmp x b0" by simp
    moreover from sB Cons have "\<forall>b \<in> set B'. cmp b0 b" by simp
    ultimately show ?thesis using Cons tp_trans [OF tp] by auto
  qed
  show ?thesis using sA sB AB le xB by (auto simp: sorted_wrt_append)
qed

lemma ins_outer_spec:
  "total_preorder cmp \<Longrightarrow> 0 < i \<Longrightarrow> i \<le> length v \<Longrightarrow> sorted_wrt cmp (take i v) \<Longrightarrow>
   \<exists>out c'. ins_outer cmp v i c = Some (out, c') \<and> mset out = mset v \<and> sorted_wrt cmp out"
proof (induction cmp v i c rule: ins_outer.induct)
  case (1 cmp v i c)
  from "1.prems" have tp: "total_preorder cmp" and ipos: "0 < i"
    and srt: "sorted_wrt cmp (take i v)" by simp_all
  show ?case
  proof (cases "i < length v")
    case False
    then have "ins_outer cmp v i c = Some (v, c)"
      by (simp add: ins_outer.simps [of cmp v i c])
    with False "1.prems" show ?thesis by simp
  next
    case ilt: True
    show ?thesis
    proof (cases "cmp (v ! i) (v ! (i - 1))")
      case False
      then have last_le: "cmp (v ! (i - 1)) (v ! i)" by (rule tp_total [OF tp])
      have "\<forall>a \<in> set (take i v). cmp a (v ! i)"
      proof
        fix a assume "a \<in> set (take i v)"
        then obtain k where k: "k < i" "a = v ! k"
          using ilt by (auto simp: in_set_conv_nth)
        have "cmp (v ! k) (v ! (i - 1))"
        proof (cases "k = i - 1")
          case True then show ?thesis using tp_refl [OF tp] by simp
        next
          case False
          with k ipos have "k < i - 1" by simp
          with srt ilt ipos have "cmp (take i v ! k) (take i v ! (i - 1))"
            by (simp add: sorted_wrt_iff_nth_less)
          with k ipos show ?thesis by simp
        qed
        with last_le k show "cmp a (v ! i)" using tp_trans [OF tp] by blast
      qed
      with srt have "sorted_wrt cmp (take i v @ [v ! i])"
        by (simp add: sorted_wrt_append)
      then have srt': "sorted_wrt cmp (take (i + 1) v)"
        using ilt by (simp add: take_Suc_conv_app_nth)
      from ilt have "i + 1 \<le> length v" by simp
      from "1.IH"(2) [OF ilt ipos False tp _ this srt']
      obtain out c' where "ins_outer cmp v (i + 1) (c + 1) = Some (out, c')"
        and out: "mset out = mset v" "sorted_wrt cmp out" by auto
      with ilt ipos False have "ins_outer cmp v i c = Some (out, c')"
        by (simp add: ins_outer.simps [of cmp v i c])
      with out show ?thesis by simp
    next
      case True
      from ins_find_spec [of 0 i v cmp "c + 1"] ilt
      obtain j c1 where find: "ins_find cmp v i 0 (c + 1) = Some (j, c1)"
        and j: "j \<le> i" and below: "\<forall>k. k < j \<longrightarrow> cmp (v ! k) (v ! i)"
        and above: "j < i \<longrightarrow> \<not> cmp (v ! j) (v ! i)"
        by auto
      let ?A = "take j v" and ?B = "drop j (take i v)"
      let ?v = "?A @ [v ! i] @ ?B @ drop (i + 1) v"
      have shift: "ins_shift v i j = Some ?v"
        using ins_shift_spec [OF j ilt] .
      have AB: "?A @ ?B = take i v"
        using j by (metis append_take_drop_id min.absorb1 take_take)
      have leA: "\<forall>a \<in> set ?A. cmp a (v ! i)"
        using below j ilt by (auto simp: in_set_conv_nth)
      have geB: "?B \<noteq> [] \<longrightarrow> cmp (v ! i) (hd ?B)"
      proof
        assume "?B \<noteq> []"
        then have jlt: "j < i" using ilt by simp
        then have "hd ?B = v ! j" using ilt by (simp add: hd_drop_conv_nth)
        moreover from above jlt have "cmp (v ! i) (v ! j)" using tp_total [OF tp] by blast
        ultimately show "cmp (v ! i) (hd ?B)" by simp
      qed
      from srt AB have "sorted_wrt cmp (?A @ ?B)" by simp
      from sorted_wrt_insert_mid [OF tp this leA geB]
      have s1: "sorted_wrt cmp (?A @ [v ! i] @ ?B)" .
      have len: "length ?v = length v" using j ilt by simp
      have "length (?A @ [v ! i] @ ?B) = i + 1" using j ilt by simp
      then have "take (i + 1) ((?A @ [v ! i] @ ?B) @ drop (i + 1) v) = ?A @ [v ! i] @ ?B"
        by (metis append_eq_conv_conj)
      then have "take (i + 1) ?v = ?A @ [v ! i] @ ?B" by simp
      with s1 have srt': "sorted_wrt cmp (take (i + 1) ?v)" by simp
      have ms: "mset ?v = mset v"
      proof -
        have "mset ?v = mset (?A @ ?B) + mset ([v ! i] @ drop (i + 1) v)" by simp
        also have "\<dots> = mset (take i v @ [v ! i] @ drop (i + 1) v)"
          unfolding AB by simp
        also have "take i v @ [v ! i] @ drop (i + 1) v = v"
          using ilt by (simp add: id_take_nth_drop [symmetric])
        finally show ?thesis .
      qed
      from ilt len have "i + 1 \<le> length ?v" by simp
      from "1.IH"(1) [OF ilt ipos True find refl shift tp _ this srt']
      obtain out c' where "ins_outer cmp ?v (i + 1) c1 = Some (out, c')"
        and out: "mset out = mset ?v" "sorted_wrt cmp out" by auto
      with ilt ipos True find shift have "ins_outer cmp v i c = Some (out, c')"
        by (simp add: ins_outer.simps [of cmp v i c])
      with out ms show ?thesis by simp
    qed
  qed
qed

lemma insertion_sort_correct:
  assumes "total_preorder cmp"
  shows "\<exists>out n. insertion_sort cmp v = Some (out, n) \<and> mset out = mset v \<and> sorted_wrt cmp out"
proof (cases "length v \<le> 1")
  case True
  then have "ins_outer cmp v 1 0 = Some (v, 0)"
    by (subst ins_outer.simps) simp
  moreover from True have "sorted_wrt cmp v"
    by (cases v) (auto simp: le_Suc_eq)
  ultimately show ?thesis by (simp add: insertion_sort_def)
next
  case False
  then have "sorted_wrt cmp (take 1 v)" by (cases v) auto
  with False ins_outer_spec [OF assms, of 1 v 0] show ?thesis
    by (simp add: insertion_sort_def)
qed


subsection \<open>Bubble sort\<close>

lemma bub_inner_spec:
  "total_preorder cmp \<Longrightarrow> i < length v \<Longrightarrow> j \<le> length v - i - 1 \<Longrightarrow>
   (\<forall>a b. a < b \<and> b < length v \<and> length v - i \<le> b \<longrightarrow> cmp (v ! a) (v ! b)) \<Longrightarrow>
   (\<forall>k. k \<le> j \<longrightarrow> cmp (v ! k) (v ! j)) \<Longrightarrow>
   \<exists>v' c'. bub_inner cmp v i j c = Some (v', c') \<and> length v' = length v \<and> mset v' = mset v \<and>
     (\<forall>a b. a < b \<and> b < length v \<and> length v - i \<le> b \<longrightarrow> cmp (v' ! a) (v' ! b)) \<and>
     (\<forall>k. k \<le> length v - i - 1 \<longrightarrow> cmp (v' ! k) (v' ! (length v - i - 1)))"
proof (induction cmp v i j c rule: bub_inner.induct)
  case (1 cmp v i j c)
  from "1.prems" have tp: "total_preorder cmp" and ilt: "i < length v"
    and I: "\<forall>a b. a < b \<and> b < length v \<and> length v - i \<le> b \<longrightarrow> cmp (v ! a) (v ! b)"
    and M: "\<forall>k. k \<le> j \<longrightarrow> cmp (v ! k) (v ! j)" by simp_all
  show ?case
  proof (cases "j < length v - i - 1")
    case False
    with "1.prems" have jm: "j = length v - i - 1" by simp
    from False ilt have "bub_inner cmp v i j c = Some (v, c)"
      by (simp add: bub_inner.simps [of cmp v i j c])
    with I M jm show ?thesis by simp
  next
    case jlt: True
    then have j1: "j + 1 < length v" and j1m: "j + 1 \<le> length v - i - 1" by simp_all
    show ?thesis
    proof (cases "cmp (v ! (j + 1)) (v ! j)")
      case False
      then have le: "cmp (v ! j) (v ! (j + 1))" by (rule tp_total [OF tp])
      have M': "\<forall>k. k \<le> j + 1 \<longrightarrow> cmp (v ! k) (v ! (j + 1))"
      proof (intro allI impI)
        fix k assume "k \<le> j + 1"
        then consider "k = j + 1" | "k \<le> j" by linarith
        then show "cmp (v ! k) (v ! (j + 1))"
        proof cases
          case 1 then show ?thesis using tp_refl [OF tp] by simp
        next
          case 2
          with M have "cmp (v ! k) (v ! j)" by simp
          with le show ?thesis using tp_trans [OF tp] by blast
        qed
      qed
      from "1.IH"(2) [OF ilt jlt False tp ilt j1m I M']
      obtain v' c' where "bub_inner cmp v i (j + 1) (c + 1) = Some (v', c')"
        and post: "length v' = length v" "mset v' = mset v"
          "\<forall>a b. a < b \<and> b < length v \<and> length v - i \<le> b \<longrightarrow> cmp (v' ! a) (v' ! b)"
          "\<forall>k. k \<le> length v - i - 1 \<longrightarrow> cmp (v' ! k) (v' ! (length v - i - 1))"
        by blast
      with ilt jlt False have "bub_inner cmp v i j c = Some (v', c')"
        by (simp add: bub_inner.simps [of cmp v i j c])
      with post show ?thesis by blast
    next
      case True
      let ?w = "v[j := v ! (j + 1), j + 1 := v ! j]"
      have len: "length ?w = length v" by simp
      have wj1: "?w ! (j + 1) = v ! j" using j1 by simp
      have wj: "?w ! j = v ! (j + 1)" using j1 by simp
      have wk: "\<And>k. k \<noteq> j \<Longrightarrow> k \<noteq> j + 1 \<Longrightarrow> ?w ! k = v ! k" by simp
      have M': "\<forall>k. k \<le> j + 1 \<longrightarrow> cmp (?w ! k) (?w ! (j + 1))"
      proof (intro allI impI)
        fix k assume "k \<le> j + 1"
        then consider "k = j + 1" | "k = j" | "k < j" by linarith
        then show "cmp (?w ! k) (?w ! (j + 1))"
        proof cases
          case 1 then show ?thesis using tp_refl [OF tp] by simp
        next
          case 2 then show ?thesis unfolding wj1 using wj True by simp
        next
          case 3
          then have "?w ! k = v ! k" by simp
          with 3 M show ?thesis unfolding wj1 by simp
        qed
      qed
      have I': "\<forall>a b. a < b \<and> b < length ?w \<and> length ?w - i \<le> b \<longrightarrow> cmp (?w ! a) (?w ! b)"
      proof (intro allI impI)
        fix a b assume ab: "a < b \<and> b < length ?w \<and> length ?w - i \<le> b"
        then have "length v - i \<le> b" by simp
        with jlt ilt have bj: "j + 1 < b" by linarith
        then have wb: "?w ! b = v ! b" by simp
        have "\<exists>a'. a' < b \<and> ?w ! a = v ! a'"
        proof -
          consider "a = j" | "a = j + 1" | "a \<noteq> j \<and> a \<noteq> j + 1" by blast
          then show ?thesis
          proof cases
            case 1 with wj bj show ?thesis by (metis less_imp_le_nat less_le_trans add_lessD1 order_refl)
          next
            case 2 with wj1 bj show ?thesis by (metis add_lessD1)
          next
            case 3 with wk ab show ?thesis by blast
          qed
        qed
        then obtain a' where "a' < b" "?w ! a = v ! a'" by blast
        with I ab wb show "cmp (?w ! a) (?w ! b)" by simp
      qed
      from ilt have ilt': "i < length ?w" by simp
      from j1m have j1m': "j + 1 \<le> length ?w - i - 1" by simp
      from "1.IH"(1) [OF ilt jlt True tp ilt' j1m' I' M']
      obtain v' c' where "bub_inner cmp ?w i (j + 1) (c + 1) = Some (v', c')"
        and post: "length v' = length v" "mset v' = mset ?w"
          "\<forall>a b. a < b \<and> b < length v \<and> length v - i \<le> b \<longrightarrow> cmp (v' ! a) (v' ! b)"
          "\<forall>k. k \<le> length v - i - 1 \<longrightarrow> cmp (v' ! k) (v' ! (length v - i - 1))"
        by auto
      with ilt jlt True have eq: "bub_inner cmp v i j c = Some (v', c')"
        by (simp add: bub_inner.simps [of cmp v i j c])
      have "mset ?w = mset v" using j1 mset_swap [of "j + 1" v j] by simp
      with eq post show ?thesis by simp
    qed
  qed
qed

lemma bub_outer_spec:
  "total_preorder cmp \<Longrightarrow> i \<le> length v \<Longrightarrow>
   (\<forall>a b. a < b \<and> b < length v \<and> length v - i \<le> b \<longrightarrow> cmp (v ! a) (v ! b)) \<Longrightarrow>
   \<exists>out c'. bub_outer cmp v i c = Some (out, c') \<and> mset out = mset v \<and> sorted_wrt cmp out"
proof (induction cmp v i c rule: bub_outer.induct)
  case (1 cmp v i c)
  from "1.prems" have tp: "total_preorder cmp"
    and I: "\<forall>a b. a < b \<and> b < length v \<and> length v - i \<le> b \<longrightarrow> cmp (v ! a) (v ! b)"
    by simp_all
  show ?case
  proof (cases "i < length v")
    case False
    then have eq: "bub_outer cmp v i c = Some (v, c)"
      by (simp add: bub_outer.simps [of cmp v i c])
    from False "1.prems" have "i = length v" by simp
    with I have "sorted_wrt cmp v" by (simp add: sorted_wrt_iff_nth_less)
    with eq show ?thesis by simp
  next
    case ilt: True
    have M0: "\<forall>k. k \<le> 0 \<longrightarrow> cmp (v ! k) (v ! 0)" using tp_refl [OF tp] by simp
    from bub_inner_spec [OF tp ilt _ I M0, of c]
    obtain v' c1 where inner: "bub_inner cmp v i 0 c = Some (v', c1)"
      and len: "length v' = length v" and ms: "mset v' = mset v"
      and I1: "\<forall>a b. a < b \<and> b < length v \<and> length v - i \<le> b \<longrightarrow> cmp (v' ! a) (v' ! b)"
      and M1: "\<forall>k. k \<le> length v - i - 1 \<longrightarrow> cmp (v' ! k) (v' ! (length v - i - 1))"
      by auto
    have I': "\<forall>a b. a < b \<and> b < length v' \<and> length v' - (i + 1) \<le> b \<longrightarrow> cmp (v' ! a) (v' ! b)"
    proof (intro allI impI)
      fix a b assume ab: "a < b \<and> b < length v' \<and> length v' - (i + 1) \<le> b"
      show "cmp (v' ! a) (v' ! b)"
      proof (cases "b = length v - i - 1")
        case True
        with ab M1 show ?thesis by simp
      next
        case False
        with ab len ilt have "length v - i \<le> b" by simp linarith
        with ab len I1 show ?thesis by simp
      qed
    qed
    from ilt len have "i + 1 \<le> length v'" by simp
    from "1.IH" [OF ilt inner refl tp this I']
    obtain out c' where "bub_outer cmp v' (i + 1) c1 = Some (out, c')"
      and out: "mset out = mset v'" "sorted_wrt cmp out" by blast
    with ilt inner have "bub_outer cmp v i c = Some (out, c')"
      by (simp add: bub_outer.simps [of cmp v i c])
    with out ms show ?thesis by simp
  qed
qed

lemma bubble_sort_correct:
  assumes "total_preorder cmp"
  shows "\<exists>out n. bubble_sort cmp v = Some (out, n) \<and> mset out = mset v \<and> sorted_wrt cmp out"
proof (cases "length v \<le> 1")
  case True
  then have "sorted_wrt cmp v" by (cases v) (auto simp: le_Suc_eq)
  with True show ?thesis by (simp add: bubble_sort_def)
next
  case False
  have "\<forall>a b. a < b \<and> b < length v \<and> length v - 0 \<le> b \<longrightarrow> cmp (v ! a) (v ! b)"
    by auto
  from bub_outer_spec [OF assms _ this, of 0] False show ?thesis
    by (simp add: bubble_sort_def)
qed


subsection \<open>Merge sort\<close>

lemma merge_lists_Nil_left: "merge_lists cmp [] ys = ys"
  by (induction ys) auto

lemma merge_lists_Nil_right: "merge_lists cmp xs [] = xs"
  by (induction xs) auto

lemma mset_merge_lists: "mset (merge_lists cmp xs ys) = mset xs + mset ys"
  by (induction cmp xs ys rule: merge_lists.induct) auto

lemma set_merge_lists: "set (merge_lists cmp xs ys) = set xs \<union> set ys"
  by (induction cmp xs ys rule: merge_lists.induct) auto

lemma length_merge_lists: "length (merge_lists cmp xs ys) = length xs + length ys"
  by (induction cmp xs ys rule: merge_lists.induct) auto

lemma sorted_merge_lists:
  "total_preorder cmp \<Longrightarrow> sorted_wrt cmp xs \<Longrightarrow> sorted_wrt cmp ys \<Longrightarrow>
   sorted_wrt cmp (merge_lists cmp xs ys)"
proof (induction cmp xs ys rule: merge_lists.induct)
  case (4 cmp x xs y ys)
  from "4.prems" have tp: "total_preorder cmp" by simp
  show ?case
  proof (cases "cmp x y")
    case True
    from "4.prems" have "\<forall>b \<in> set ys. cmp y b" by simp
    with True have "\<forall>b \<in> set (y # ys). cmp x b" using tp_trans [OF tp] by auto
    with "4.prems" True "4.IH"(1) show ?thesis by (auto simp: set_merge_lists)
  next
    case False
    then have yx: "cmp y x" by (rule tp_total [OF tp])
    from "4.prems" have "\<forall>a \<in> set xs. cmp x a" by simp
    with yx have "\<forall>a \<in> set (x # xs). cmp y a" using tp_trans [OF tp] by auto
    with "4.prems" False "4.IH"(2) show ?thesis by (auto simp: set_merge_lists)
  qed
qed (simp_all add: merge_lists_Nil_left merge_lists_Nil_right)

text \<open>Elements that compare equal to \<open>z\<close> keep their order: the left run's come first.\<close>

lemma stable_merge_lists:
  "total_preorder cmp \<Longrightarrow> sorted_wrt cmp xs \<Longrightarrow>
   filter (\<lambda>w. cmp z w \<and> cmp w z) (merge_lists cmp xs ys) =
   filter (\<lambda>w. cmp z w \<and> cmp w z) xs @ filter (\<lambda>w. cmp z w \<and> cmp w z) ys"
proof (induction cmp xs ys rule: merge_lists.induct)
  case (4 cmp x xs y ys)
  from "4.prems" have tp: "total_preorder cmp" by simp
  show ?case
  proof (cases "cmp x y")
    case True
    with "4.prems" "4.IH"(1) show ?thesis by simp
  next
    case False
    have none: "cmp z y \<and> cmp y z \<Longrightarrow> filter (\<lambda>w. cmp z w \<and> cmp w z) (x # xs) = []"
    proof -
      assume zy: "cmp z y \<and> cmp y z"
      have "\<not> (cmp z w \<and> cmp w z)" if "w \<in> set (x # xs)" for w
      proof
        assume zw: "cmp z w \<and> cmp w z"
        from that "4.prems" have "cmp x w" using tp_refl [OF tp] by auto
        moreover from zw zy have "cmp w y" using tp_trans [OF tp] by blast
        ultimately have "cmp x y" using tp_trans [OF tp] by blast
        with False show False by simp
      qed
      then show ?thesis by (simp only: filter_empty_conv) blast
    qed
    from "4.IH"(2) [OF False "4.prems"] False
    have "filter (\<lambda>w. cmp z w \<and> cmp w z) (merge_lists cmp (x # xs) (y # ys)) =
      filter (\<lambda>w. cmp z w \<and> cmp w z) [y] @ filter (\<lambda>w. cmp z w \<and> cmp w z) (x # xs) @
      filter (\<lambda>w. cmp z w \<and> cmp w z) ys"
      by simp
    also have "\<dots> = filter (\<lambda>w. cmp z w \<and> cmp w z) (x # xs) @
      filter (\<lambda>w. cmp z w \<and> cmp w z) (y # ys)"
    proof (cases "cmp z y \<and> cmp y z")
      case True
      from none [OF True] show ?thesis by simp
    next
      case False
      then show ?thesis by auto
    qed
    finally show ?thesis .
  qed
qed (simp_all add: merge_lists_Nil_left merge_lists_Nil_right)

lemma merge_loop_spec:
  "v = P @ l @ Q @ r @ C \<Longrightarrow> i1 = length P \<Longrightarrow> mid = i1 + length l \<Longrightarrow>
   i2 = mid + length Q \<Longrightarrow> hi = i2 + length r \<Longrightarrow>
   \<exists>c'. merge_loop cmp v mid hi i1 i2 u c = Some (u @ merge_lists cmp l r, c')"
proof (induction cmp l r arbitrary: P Q u c i1 i2 rule: merge_lists.induct)
  case (1 cmp)
  then show ?case
    unfolding merge_loop.simps [of cmp v mid hi i1 i2 u c] by simp
next
  case (2 cmp y ys)
  from "2.prems" have i2: "i2 < length v" and vi2: "v ! i2 = y"
    by (simp_all add: nth_append)
  from "2.prems" have "v = P @ [] @ (Q @ [y]) @ ys @ C" by simp
  from "2.IH" [OF this, of i1 "i2 + 1" "u @ [y]" c] "2.prems"
  obtain c' where "merge_loop cmp v mid hi i1 (i2 + 1) (u @ [y]) c = Some ((u @ [y]) @ merge_lists cmp [] ys, c')"
    by auto
  then show ?case
    unfolding merge_loop.simps [of cmp v mid hi i1 i2 u c]
    using "2.prems" i2 vi2 by simp
next
  case (3 cmp x xs)
  from "3.prems" have i1: "i1 < length v" and vi1: "v ! i1 = x"
    by (simp_all add: nth_append)
  from "3.prems" have "v = (P @ [x]) @ xs @ Q @ [] @ C" by simp
  from "3.IH" [OF this, of "i1 + 1" i2 "u @ [x]" c] "3.prems"
  obtain c' where "merge_loop cmp v mid hi (i1 + 1) i2 (u @ [x]) c = Some ((u @ [x]) @ merge_lists cmp xs [], c')"
    by auto
  then show ?case
    unfolding merge_loop.simps [of cmp v mid hi i1 i2 u c]
    using "3.prems" i1 vi1 by simp
next
  case (4 cmp x xs y ys)
  from "4.prems" have i1: "i1 < length v" and vi1: "v ! i1 = x"
    and i2: "i2 < length v" and vi2: "v ! i2 = y"
    by (simp_all add: nth_append)
  show ?case
  proof (cases "cmp x y")
    case True
    from "4.prems" have "v = (P @ [x]) @ xs @ Q @ (y # ys) @ C" by simp
    from "4.IH"(1) [OF True this, of "i1 + 1" i2 "u @ [x]" "c + 1"] "4.prems"
    obtain c' where "merge_loop cmp v mid hi (i1 + 1) i2 (u @ [x]) (c + 1) =
        Some ((u @ [x]) @ merge_lists cmp xs (y # ys), c')"
      by auto
    then show ?thesis
      unfolding merge_loop.simps [of cmp v mid hi i1 i2 u c]
      using "4.prems" i1 vi1 i2 vi2 True by simp
  next
    case False
    from "4.prems" have "v = P @ (x # xs) @ (Q @ [y]) @ ys @ C" by simp
    from "4.IH"(2) [OF False this, of i1 "i2 + 1" "u @ [y]" "c + 1"] "4.prems"
    obtain c' where "merge_loop cmp v mid hi i1 (i2 + 1) (u @ [y]) (c + 1) =
        Some ((u @ [y]) @ merge_lists cmp (x # xs) ys, c')"
      by auto
    then show ?thesis
      unfolding merge_loop.simps [of cmp v mid hi i1 i2 u c]
      using "4.prems" i1 vi1 i2 vi2 False by simp
  qed
qed

lemma merge_spec:
  "\<exists>c'. merge cmp (A @ B1 @ B2 @ C) (length A) (length A + (length B1 + length B2)) c =
     Some (A @ merge_lists cmp B1 B2 @ C, c')" if "length B1 = (length B1 + length B2) div 2"
proof -
  let ?v = "A @ B1 @ B2 @ C"
  let ?lo = "length A" and ?hi = "length A + (length B1 + length B2)"
  from that have mid: "?lo + (?hi - ?lo) div 2 = ?lo + length B1" by simp
  have "?v = A @ B1 @ [] @ B2 @ C" by simp
  from merge_loop_spec [OF this refl refl, of "?lo + length B1" ?hi cmp "[]" c]
  obtain c' where loop: "merge_loop cmp ?v (?lo + length B1) ?hi ?lo (?lo + length B1) [] c =
      Some (merge_lists cmp B1 B2, c')"
    by auto
  have "std_copy (merge_lists cmp B1 B2) ?v ?lo = Some (A @ merge_lists cmp B1 B2 @ C)"
    by (simp add: std_copy_def length_merge_lists)
  with loop mid show ?thesis
    unfolding merge_def by (simp add: Let_def)
qed


lemma length_msort_list: "length (msort_list cmp xs) = length xs"
proof (induction cmp xs rule: msort_list.induct)
  case (1 cmp xs)
  show ?case
  proof (cases "length xs \<le> 1")
    case True
    then show ?thesis by (simp add: msort_list.simps [of cmp xs])
  next
    case False
    with "1.IH" show ?thesis
      by (simp add: msort_list.simps [of cmp xs] length_merge_lists)
  qed
qed

lemma mset_msort_list: "mset (msort_list cmp xs) = mset xs"
proof (induction cmp xs rule: msort_list.induct)
  case (1 cmp xs)
  show ?case
  proof (cases "length xs \<le> 1")
    case True
    then show ?thesis by (simp add: msort_list.simps [of cmp xs])
  next
    case False
    have "mset (take (length xs div 2) xs) + mset (drop (length xs div 2) xs) = mset xs"
      by (metis append_take_drop_id mset_append)
    with False "1.IH" show ?thesis
      by (simp add: msort_list.simps [of cmp xs] mset_merge_lists)
  qed
qed

lemma sorted_msort_list: "total_preorder cmp \<Longrightarrow> sorted_wrt cmp (msort_list cmp xs)"
proof (induction cmp xs rule: msort_list.induct)
  case (1 cmp xs)
  show ?case
  proof (cases "length xs \<le> 1")
    case True
    then have "sorted_wrt cmp xs" by (cases xs) (auto simp: le_Suc_eq)
    with True show ?thesis by (simp add: msort_list.simps [of cmp xs])
  next
    case False
    with "1.IH" "1.prems" show ?thesis
      by (simp add: msort_list.simps [of cmp xs] sorted_merge_lists)
  qed
qed

lemma stable_msort_list:
  "total_preorder cmp \<Longrightarrow>
   filter (\<lambda>w. cmp z w \<and> cmp w z) (msort_list cmp xs) = filter (\<lambda>w. cmp z w \<and> cmp w z) xs"
proof (induction cmp xs rule: msort_list.induct)
  case (1 cmp xs)
  show ?case
  proof (cases "length xs \<le> 1")
    case True
    then show ?thesis by (simp add: msort_list.simps [of cmp xs])
  next
    case False
    let ?f = "filter (\<lambda>w. cmp z w \<and> cmp w z)"
    let ?l = "take (length xs div 2) xs" and ?r = "drop (length xs div 2) xs"
    have "?f (msort_list cmp xs) = ?f (merge_lists cmp (msort_list cmp ?l) (msort_list cmp ?r))"
      using False by (simp add: msort_list.simps [of cmp xs])
    also have "\<dots> = ?f (msort_list cmp ?l) @ ?f (msort_list cmp ?r)"
      using "1.prems" by (simp add: stable_merge_lists sorted_msort_list)
    also have "\<dots> = ?f ?l @ ?f ?r"
      using "1.IH" [OF False "1.prems"] by simp
    also have "\<dots> = ?f (?l @ ?r)" by (simp only: filter_append)
    also have "?l @ ?r = xs" by simp
    finally show ?thesis .
  qed
qed

text \<open>
  A helper that unfolds as \<open>merge_sort_helper\<close> does replaces the range \<open>B\<close> of the vector
  \<open>A @ B @ C\<close> by \<open>msort_list cmp B\<close> and leaves the rest alone; what it writes depends on
  the range only.
\<close>

lemma msort_helper_frame:
  fixes f :: "'a list \<Rightarrow> nat \<Rightarrow> nat \<Rightarrow> nat \<Rightarrow> ('a list \<times> nat) option"
  assumes unfold: "\<And>v lo hi c. f v lo hi c =
     (if hi < lo then None
      else if hi - lo \<le> 1 then Some (v, c)
      else
        (case f v lo (lo + (hi - lo) div 2) c of
           None \<Rightarrow> None
         | Some (v1, c1) \<Rightarrow>
             (case f v1 (lo + (hi - lo) div 2) hi c1 of
                None \<Rightarrow> None
              | Some (v2, c2) \<Rightarrow> merge cmp v2 lo hi c2)))"
  shows "\<exists>c'. f (A @ B @ C) (length A) (length A + length B) c =
           Some (A @ msort_list cmp B @ C, c')"
proof (induction "length B" arbitrary: A B C c rule: less_induct)
  case less
  let ?lo = "length A" and ?hi = "length A + length B"
  show ?case
  proof (cases "length B \<le> 1")
    case True
    then show ?thesis
      by (subst unfold) (simp add: msort_list.simps [of cmp B])
  next
    case False
    let ?h = "length B div 2"
    let ?B1 = "take ?h B" and ?B2 = "drop ?h B"
    have lB1: "length ?B1 = ?h" and lB2: "length ?B2 = length B - ?h" by simp_all
    have B: "B = ?B1 @ ?B2" by simp
    have mid: "?lo + (?hi - ?lo) div 2 = ?lo + ?h" by simp
    from False have "length ?B1 < length B" by simp
    from less [OF this, of A "?B2 @ C" c]
    obtain c1 where r1: "f (A @ ?B1 @ ?B2 @ C) ?lo (?lo + ?h) c =
        Some (A @ msort_list cmp ?B1 @ ?B2 @ C, c1)"
      by auto
    from False have "length ?B2 < length B" by simp
    from less [OF this, of "A @ msort_list cmp ?B1" C c1]
    obtain c2 where r2: "f (A @ msort_list cmp ?B1 @ ?B2 @ C) (?lo + ?h) ?hi c1 =
        Some (A @ msort_list cmp ?B1 @ msort_list cmp ?B2 @ C, c2)"
      by (auto simp: length_msort_list)
    have "length (msort_list cmp ?B1) =
        (length (msort_list cmp ?B1) + length (msort_list cmp ?B2)) div 2"
      by (simp add: length_msort_list)
    from merge_spec [OF this, of cmp A C c2]
    obtain c' where r3: "merge cmp (A @ msort_list cmp ?B1 @ msort_list cmp ?B2 @ C) ?lo ?hi c2 =
        Some (A @ merge_lists cmp (msort_list cmp ?B1) (msort_list cmp ?B2) @ C, c')"
      by (auto simp: length_msort_list)
    have vB: "A @ ?B1 @ ?B2 @ C = A @ B @ C"
      by (metis append_assoc append_take_drop_id)
    from r1 have r1': "f (A @ B @ C) ?lo (?lo + ?h) c =
        Some (A @ msort_list cmp ?B1 @ ?B2 @ C, c1)"
      by (simp only: vB)
    have "f (A @ B @ C) ?lo ?hi c =
        (case f (A @ B @ C) ?lo (?lo + ?h) c of
           None \<Rightarrow> None
         | Some (v1, c1) \<Rightarrow>
             (case f v1 (?lo + ?h) ?hi c1 of
                None \<Rightarrow> None
              | Some (v2, c2) \<Rightarrow> merge cmp v2 ?lo ?hi c2))"
      using False by (subst unfold) (simp add: mid cong: option.case_cong)
    also have "\<dots> = Some (A @ merge_lists cmp (msort_list cmp ?B1) (msort_list cmp ?B2) @ C, c')"
      by (simp only: r1' r2 r3 option.case prod.case)
    finally have "f (A @ B @ C) ?lo ?hi c =
        Some (A @ merge_lists cmp (msort_list cmp ?B1) (msort_list cmp ?B2) @ C, c')" .
    with False show ?thesis
      by (simp add: msort_list.simps [of cmp B])
  qed
qed

lemma merge_sort_frame:
  "\<exists>c'. merge_sort_helper cmp (A @ B @ C) (length A) (length A + length B) c =
           Some (A @ msort_list cmp B @ C, c')"
  by (rule msort_helper_frame) (rule merge_sort_helper.simps)

lemma pmerge_sort_frame:
  "\<exists>c'. pmerge_sort_helper cmp (A @ B @ C) (length A) (length A + length B) c =
           Some (A @ msort_list cmp B @ C, c')"
  by (rule msort_helper_frame) (rule pmerge_sort_helper.simps)

lemma merge_sort_msort: "\<exists>n. merge_sort cmp v = Some (msort_list cmp v, n)"
  using merge_sort_frame [of cmp "[]" v "[]" 0] by (simp add: merge_sort_def)

lemma pmerge_sort_msort: "\<exists>n. pmerge_sort cmp v = Some (msort_list cmp v, n)"
  using pmerge_sort_frame [of cmp "[]" v "[]" 0] by (simp add: pmerge_sort_def)

lemma merge_sort_correct:
  assumes "total_preorder cmp"
  shows "\<exists>out n. merge_sort cmp v = Some (out, n) \<and> mset out = mset v \<and> sorted_wrt cmp out"
  using merge_sort_msort [of cmp v] sorted_msort_list [OF assms, of v]
  by (auto simp: mset_msort_list)

lemma pmerge_sort_correct:
  assumes "total_preorder cmp"
  shows "\<exists>out n. pmerge_sort cmp v = Some (out, n) \<and> mset out = mset v \<and> sorted_wrt cmp out"
  using pmerge_sort_msort [of cmp v] sorted_msort_list [OF assms, of v]
  by (auto simp: mset_msort_list)


subsection \<open>Quick sort\<close>

lemma partition_loop_spec:
  "hi \<le> length v \<Longrightarrow>
   partition_loop cmp v hi p vp i u1 u2 c =
     Some (u1 @ filter (\<lambda>x. cmp x vp) (map ((!) v) (filter (\<lambda>k. k \<noteq> p) [i..<hi])),
           u2 @ filter (\<lambda>x. \<not> cmp x vp) (map ((!) v) (filter (\<lambda>k. k \<noteq> p) [i..<hi])),
           c + length (filter (\<lambda>k. k \<noteq> p) [i..<hi]))"
proof (induction cmp v hi p vp i u1 u2 c rule: partition_loop.induct)
  case (1 cmp v hi p vp i u1 u2 c)
  show ?case
  proof (cases "i < hi")
    case False
    then show ?thesis
      unfolding partition_loop.simps [of cmp v hi p vp i u1 u2 c] by simp
  next
    case True
    then have upt: "[i..<hi] = i # [i + 1..<hi]" by (simp add: upt_conv_Cons)
    from True "1.prems" have ilen: "i < length v" by simp
    show ?thesis
    proof (cases "i = p")
      case ip: True
      from "1.IH"(1) [OF True ip "1.prems"] show ?thesis
        unfolding partition_loop.simps [of cmp v hi p vp i u1 u2 c] upt
        using True ip by simp
    next
      case ip: False
      show ?thesis
      proof (cases "cmp (v ! i) vp")
        case c: True
        from "1.IH"(2) [OF True ip ilen c "1.prems"] show ?thesis
          unfolding partition_loop.simps [of cmp v hi p vp i u1 u2 c] upt
          using True ip ilen c by simp
      next
        case c: False
        from "1.IH"(3) [OF True ip ilen c "1.prems"] show ?thesis
          unfolding partition_loop.simps [of cmp v hi p vp i u1 u2 c] upt
          using True ip ilen c by simp
      qed
    qed
  qed
qed

lemma map_nth_range: "map ((!) (A @ B @ C)) [length A..<length A + length B] = B"
  by (rule nth_equalityI) (simp_all add: nth_append)

lemma range_without_pivot:
  assumes p: "p = length A + length B1" and hi: "hi = Suc p + length B2"
  shows "map ((!) (A @ B1 @ [x] @ B2 @ C)) (filter (\<lambda>k. k \<noteq> p) [length A..<hi]) = B1 @ B2"
proof -
  let ?v = "A @ B1 @ [x] @ B2 @ C"
  have "[length A..<p + Suc (length B2)] = [length A..<p] @ [p..<p + Suc (length B2)]"
    by (rule upt_add_eq_append) (simp add: p)
  moreover have "[p..<p + Suc (length B2)] = p # [Suc p..<p + Suc (length B2)]"
    by (rule upt_conv_Cons) simp
  ultimately have split: "[length A..<hi] = [length A..<p] @ [p] @ [Suc p..<hi]"
    by (simp add: hi)
  have f1: "filter (\<lambda>k. k \<noteq> p) [length A..<p] = [length A..<p]"
    by (simp add: filter_id_conv)
  have f2: "filter (\<lambda>k. k \<noteq> p) [Suc p..<hi] = [Suc p..<hi]"
    by (simp add: filter_id_conv)
  have f3: "filter (\<lambda>k. k \<noteq> p) [p] = []" by simp
  have "map ((!) (A @ B1 @ ([x] @ B2 @ C))) [length A..<length A + length B1] = B1"
    by (rule map_nth_range)
  then have m1: "map ((!) ?v) [length A..<p] = B1" by (simp add: p)
  have "map ((!) ((A @ B1 @ [x]) @ B2 @ C))
      [length (A @ B1 @ [x])..<length (A @ B1 @ [x]) + length B2] = B2"
    by (rule map_nth_range)
  then have m2: "map ((!) ?v) [Suc p..<hi] = B2"
    by (simp add: p hi)
  show ?thesis
    unfolding split filter_append map_append f1 f2 f3 m1 m2 by simp
qed

lemma partition_write:
  assumes len: "length W = length L + 1 + length R"
  shows "(case std_copy L (A @ W @ C) (length A) of
            None \<Rightarrow> None
          | Some v1 \<Rightarrow>
              (if length A + length L < length v1 then
                 (case std_copy R (v1[length A + length L := x]) (length A + length L + 1) of
                    None \<Rightarrow> None
                  | Some v2 \<Rightarrow> Some (v2, length L, c'))
               else None)) = Some (A @ L @ [x] @ R @ C, length L, c')"
proof -
  let ?v1 = "A @ L @ drop (length L) W @ C"
  have c1: "std_copy L (A @ W @ C) (length A) = Some ?v1"
    using len by (simp add: std_copy_def)
  from len have "length L < length W" by simp
  then have "drop (length L) W = W ! length L # drop (length L + 1) W"
    by (simp add: Cons_nth_drop_Suc)
  then have v1: "?v1 = (A @ L) @ (W ! length L # drop (length L + 1) W @ C)" by simp
  have upd: "?v1[length A + length L := x] = (A @ L) @ x # drop (length L + 1) W @ C"
    unfolding v1 using list_update_length [of "A @ L" "W ! length L" _ x] by simp
  let ?v1' = "(A @ L @ [x]) @ drop (length L + 1) W @ C"
  have upd': "?v1[length A + length L := x] = ?v1'" unfolding upd by simp
  have dr: "drop (length R) (drop (length L + 1) W) = []" using len by simp
  have c2: "std_copy R ?v1' (length A + length L + 1) = Some ((A @ L @ [x]) @ R @ C)"
  proof -
    have "length A + length L + 1 = length (A @ L @ [x])" by simp
    moreover have "length R \<le> length (drop (length L + 1) W @ C)" using len by simp
    moreover have "drop (length R) (drop (length L + 1) W @ C) = C"
      using dr len by simp
    ultimately show ?thesis
      unfolding std_copy_def by (simp del: append_assoc)
  qed
  have "length A + length L < length ?v1" using len by simp
  with c1 upd' c2 show ?thesis by simp
qed

lemma partition_vec_spec:
  assumes v: "v = A @ B1 @ [x] @ B2 @ C" and lo: "lo = length A"
    and p: "p = length A + length B1" and hi: "hi = Suc p + length B2"
  shows "partition_vec cmp v lo hi p c =
   Some (A @ filter (\<lambda>y. cmp y x) (B1 @ B2) @ [x] @ filter (\<lambda>y. \<not> cmp y x) (B1 @ B2) @ C,
         length (filter (\<lambda>y. cmp y x) (B1 @ B2)),
         c + length (B1 @ B2))"
proof -
  let ?W = "B1 @ [x] @ B2"
  let ?L = "filter (\<lambda>y. cmp y x) (B1 @ B2)" and ?R = "filter (\<lambda>y. \<not> cmp y x) (B1 @ B2)"
  have vW: "v = A @ ?W @ C" by (simp add: v)
  have vp: "v ! p = x" by (simp add: v p nth_append)
  have plen: "p < length v" by (simp add: v p)
  have rng: "map ((!) v) (filter (\<lambda>k. k \<noteq> p) [lo..<hi]) = B1 @ B2"
    unfolding v lo by (rule range_without_pivot [OF p hi])
  then have "length (map ((!) v) (filter (\<lambda>k. k \<noteq> p) [lo..<hi])) = length (B1 @ B2)"
    by (simp only:)
  then have cnt: "length (filter (\<lambda>k. k \<noteq> p) [lo..<hi]) = length (B1 @ B2)"
    by (simp only: length_map)
  have "hi \<le> length v" by (simp add: v p hi)
  from partition_loop_spec [OF this, of cmp p x lo "[]" "[]" c]
  have loop: "partition_loop cmp v hi p x lo [] [] c = Some (?L, ?R, c + length (B1 @ B2))"
    by (simp only: rng cnt append_Nil)
  have LR: "length ?W = length ?L + 1 + length ?R"
    using sum_length_filter_compl [of "\<lambda>y. cmp y x" "B1 @ B2"] by simp
  show ?thesis
    unfolding partition_vec_def
    using plen vp loop partition_write [OF LR, where A = A and C = C and x = x and c' = "c + length (B1 @ B2)"]
    by (simp only: if_True option.case prod.case vW lo)
qed


text \<open>
  A helper that unfolds as \<open>quick_sort_helper\<close> does, with a pivot index inside the range,
  returns: it replaces the range \<open>B\<close> of \<open>A @ B @ C\<close> by a permutation of \<open>B\<close>, ordered when the
  comparator is a total preorder, and leaves the rest of the vector alone.
\<close>

lemma qsort_helper_spec:
  fixes f :: "'a list \<Rightarrow> nat \<Rightarrow> nat \<Rightarrow> nat \<Rightarrow> ('a list \<times> nat) option"
    and pv :: "nat \<Rightarrow> nat \<Rightarrow> nat"
  assumes unfold: "\<And>v lo hi c. f v lo hi c =
     (if hi < lo then None
      else if hi - lo \<le> 1 then Some (v, c)
      else
        (case partition_vec cmp v lo hi (pv lo hi) c of
           None \<Rightarrow> None
         | Some (v', p, c') \<Rightarrow>
             Option.bind (f v' lo (lo + p) c') (\<lambda>(v1, c1). f v1 (lo + p + 1) hi c1)))"
    and pv: "\<And>lo hi. lo + 1 < hi \<Longrightarrow> lo \<le> pv lo hi \<and> pv lo hi < hi"
  shows "\<exists>B' c'. f (A @ B @ C) (length A) (length A + length B) c = Some (A @ B' @ C, c') \<and>
           mset B' = mset B \<and> (total_preorder cmp \<longrightarrow> sorted_wrt cmp B')"
proof (induction "length B" arbitrary: A B C c rule: less_induct)
  case less
  let ?lo = "length A" and ?hi = "length A + length B"
  show ?case
  proof (cases "length B \<le> 1")
    case True
    then have "f (A @ B @ C) ?lo ?hi c = Some (A @ B @ C, c)"
      by (subst unfold) simp
    moreover from True have "sorted_wrt cmp B" by (cases B) (auto simp: le_Suc_eq)
    ultimately show ?thesis by blast
  next
    case False
    then have "?lo + 1 < ?hi" by simp
    from pv [OF this] have pvr: "?lo \<le> pv ?lo ?hi" "pv ?lo ?hi < ?hi" by simp_all
    define k where "k = pv ?lo ?hi - ?lo"
    with pvr have k: "k < length B" and pk: "pv ?lo ?hi = ?lo + k" by simp_all
    define B1 x B2 where "B1 = take k B" and "x = B ! k" and "B2 = drop (Suc k) B"
    have B: "B = B1 @ [x] @ B2"
      unfolding B1_def x_def B2_def using k by (simp add: id_take_nth_drop [symmetric])
    have lB1: "length B1 = k" unfolding B1_def using k by simp
    have lB: "length B = Suc (length B1 + length B2)" by (simp add: B)
    define L R where "L = filter (\<lambda>y. cmp y x) (B1 @ B2)"
      and "R = filter (\<lambda>y. \<not> cmp y x) (B1 @ B2)"
    have lLR: "length L + length R = length B1 + length B2"
      unfolding L_def R_def
      using sum_length_filter_compl [of "\<lambda>y. cmp y x" "B1 @ B2"] by simp
    have mLR: "mset L + mset R = mset B1 + mset B2"
      unfolding L_def R_def
      using multiset_partition [of "mset (B1 @ B2)" "\<lambda>y. cmp y x"] by simp
    have part: "partition_vec cmp (A @ B @ C) ?lo ?hi (pv ?lo ?hi) c =
        Some (A @ L @ [x] @ R @ C, length L, c + length (B1 @ B2))"
    proof -
      have v: "A @ B @ C = A @ B1 @ [x] @ B2 @ C" by (simp add: B)
      have p: "pv ?lo ?hi = length A + length B1" by (simp only: pk lB1)
      have "?hi = Suc (?lo + k) + length B2" using lB lB1 by simp
      also have "?lo + k = pv ?lo ?hi" by (rule pk [symmetric])
      finally have h: "?hi = Suc (pv ?lo ?hi) + length B2" .
      show ?thesis
        unfolding L_def R_def by (rule partition_vec_spec [OF v refl p h])
    qed
    from lLR lB have "length L < length B" by simp
    from less [OF this, of A "[x] @ R @ C" "c + length (B1 @ B2)"]
    obtain L' c1 where r1: "f (A @ L @ [x] @ R @ C) ?lo (?lo + length L) (c + length (B1 @ B2)) =
        Some (A @ L' @ [x] @ R @ C, c1)"
      and mL: "mset L' = mset L" and sL: "total_preorder cmp \<longrightarrow> sorted_wrt cmp L'"
      by auto
    from mL have lL: "length L' = length L" by (metis size_mset)
    from lLR lB have "length R < length B" by simp
    from less [OF this, of "A @ L' @ [x]" C c1]
    obtain R' c2 where r2: "f ((A @ L' @ [x]) @ R @ C) (length (A @ L' @ [x]))
        (length (A @ L' @ [x]) + length R) c1 = Some ((A @ L' @ [x]) @ R' @ C, c2)"
      and mR: "mset R' = mset R" and sR: "total_preorder cmp \<longrightarrow> sorted_wrt cmp R'"
      by blast
    have hi: "length (A @ L' @ [x]) + length R = ?hi" using lL lLR lB by simp
    have lo': "length (A @ L' @ [x]) = ?lo + length L + 1" using lL by simp
    have r2': "f (A @ L' @ [x] @ R @ C) (?lo + length L + 1) ?hi c1 =
        Some (A @ (L' @ [x] @ R') @ C, c2)"
      using r2 [unfolded hi] unfolding lo' by simp
    have eq: "f (A @ B @ C) ?lo ?hi c = Some (A @ (L' @ [x] @ R') @ C, c2)"
      using False part r1 r2' by (subst unfold) simp
    have ms: "mset (L' @ [x] @ R') = mset B"
      using mL mR mLR by (simp add: B)
    have srt: "sorted_wrt cmp (L' @ [x] @ R')" if tp: "total_preorder cmp"
    proof -
      have "set L' = set L" using mL by (metis set_mset_mset)
      then have le: "\<forall>a \<in> set L'. cmp a x" by (auto simp: L_def)
      have "set R' = set R" using mR by (metis set_mset_mset)
      then have "\<forall>b \<in> set R'. \<not> cmp b x" by (auto simp: R_def)
      then have ge: "\<forall>b \<in> set R'. cmp x b" using tp_total [OF tp] by blast
      from le ge have "\<forall>a \<in> set L'. \<forall>b \<in> set R'. cmp a b"
        using tp_trans [OF tp] by blast
      with le ge sL sR tp show ?thesis by (simp add: sorted_wrt_append)
    qed
    from eq ms srt show ?thesis by blast
  qed
qed


lemma mid_pivot_in_range:
  "lo + 1 < hi \<Longrightarrow> lo \<le> lo + (hi - lo) div 2 \<and> lo + (hi - lo) div 2 < (hi :: nat)"
  by auto

lemma rand_pivot_in_range:
  "lo + 1 < hi \<Longrightarrow> lo \<le> r mod (hi - lo) + lo \<and> r mod (hi - lo) + lo < (hi :: nat)"
proof -
  assume "lo + 1 < hi"
  then have "0 < hi - lo" by simp
  then have "r mod (hi - lo) < hi - lo" by (rule mod_less_divisor)
  then show ?thesis by linarith
qed

lemma quick_sort_frame:
  "\<exists>B' c'. quick_sort_helper cmp (A @ B @ C) (length A) (length A + length B) c =
       Some (A @ B' @ C, c') \<and>
     mset B' = mset B \<and> (total_preorder cmp \<longrightarrow> sorted_wrt cmp B')"
  by (rule qsort_helper_spec [where pv = "\<lambda>lo hi. lo + (hi - lo) div 2"])
     (rule quick_sort_helper.simps, rule mid_pivot_in_range)

lemma pquick_sort_frame:
  "\<exists>B' c'. pquick_sort_helper cmp (A @ B @ C) (length A) (length A + length B) c =
       Some (A @ B' @ C, c') \<and>
     mset B' = mset B \<and> (total_preorder cmp \<longrightarrow> sorted_wrt cmp B')"
  by (rule qsort_helper_spec [where pv = "\<lambda>lo hi. lo + (hi - lo) div 2"])
     (rule pquick_sort_helper.simps, rule mid_pivot_in_range)

lemma rpquick_sort_frame:
  "\<exists>B' c'. rpquick_sort_helper cmp rnd (A @ B @ C) (length A) (length A + length B) c =
       Some (A @ B' @ C, c') \<and>
     mset B' = mset B \<and> (total_preorder cmp \<longrightarrow> sorted_wrt cmp B')"
  by (rule qsort_helper_spec [where pv = "\<lambda>lo hi. rnd lo hi mod (hi - lo) + lo"])
     (rule rpquick_sort_helper.simps, rule rand_pivot_in_range)

lemma quick_sort_correct:
  assumes "total_preorder cmp"
  shows "\<exists>out n. quick_sort cmp v = Some (out, n) \<and> mset out = mset v \<and> sorted_wrt cmp out"
  using quick_sort_frame [of cmp "[]" v "[]" 0] assms by (simp add: quick_sort_def)

lemma pquick_sort_correct:
  assumes "total_preorder cmp"
  shows "\<exists>out n. pquick_sort cmp v = Some (out, n) \<and> mset out = mset v \<and> sorted_wrt cmp out"
  using pquick_sort_frame [of cmp "[]" v "[]" 0] assms by (simp add: pquick_sort_def)

lemma rpquick_sort_correct:
  assumes "total_preorder cmp"
  shows "\<exists>out n. rpquick_sort rnd cmp v = Some (out, n) \<and> mset out = mset v \<and> sorted_wrt cmp out"
  using rpquick_sort_frame [of cmp rnd "[]" v "[]" 0] assms by (simp add: rpquick_sort_def)

text \<open>
  What such a helper leaves in its range depends on the contents of the range alone (and on
  the pivot choices there), not on the rest of the vector: in two vectors that agree on
  the range, the call leaves the same range and makes the same number of comparisons.
  So the \<open>head\<close> and \<open>tail\<close> calls of the parallel variants neither write nor depend on each
  other's range.
\<close>

lemma qsort_helper_local:
  fixes f :: "'a list \<Rightarrow> nat \<Rightarrow> nat \<Rightarrow> nat \<Rightarrow> ('a list \<times> nat) option"
    and pv :: "nat \<Rightarrow> nat \<Rightarrow> nat"
  assumes unfold: "\<And>v lo hi c. f v lo hi c =
     (if hi < lo then None
      else if hi - lo \<le> 1 then Some (v, c)
      else
        (case partition_vec cmp v lo hi (pv lo hi) c of
           None \<Rightarrow> None
         | Some (v', p, c') \<Rightarrow>
             Option.bind (f v' lo (lo + p) c') (\<lambda>(v1, c1). f v1 (lo + p + 1) hi c1)))"
    and pv: "\<And>lo hi. lo + 1 < hi \<Longrightarrow> lo \<le> pv lo hi \<and> pv lo hi < hi"
  shows "length A' = length A \<Longrightarrow>
    \<exists>B' c'. f (A @ B @ C) (length A) (length A + length B) c = Some (A @ B' @ C, c') \<and>
            f (A' @ B @ C') (length A) (length A + length B) c = Some (A' @ B' @ C', c')"
proof (induction "length B" arbitrary: A A' B C C' c rule: less_induct)
  case less
  note lA = \<open>length A' = length A\<close>
  let ?lo = "length A" and ?hi = "length A + length B"
  show ?case
  proof (cases "length B \<le> 1")
    case True
    then have "f (A @ B @ C) ?lo ?hi c = Some (A @ B @ C, c)"
      and "f (A' @ B @ C') ?lo ?hi c = Some (A' @ B @ C', c)"
      by (subst unfold, simp)+
    then show ?thesis by blast
  next
    case False
    then have "?lo + 1 < ?hi" by simp
    from pv [OF this] have pvr: "?lo \<le> pv ?lo ?hi" "pv ?lo ?hi < ?hi" by simp_all
    define k where "k = pv ?lo ?hi - ?lo"
    with pvr have k: "k < length B" and pk: "pv ?lo ?hi = ?lo + k" by simp_all
    define B1 x B2 where "B1 = take k B" and "x = B ! k" and "B2 = drop (Suc k) B"
    have B: "B = B1 @ [x] @ B2"
      unfolding B1_def x_def B2_def using k by (simp add: id_take_nth_drop [symmetric])
    have lB1: "length B1 = k" unfolding B1_def using k by simp
    have lB: "length B = Suc (length B1 + length B2)" by (simp add: B)
    define L R where "L = filter (\<lambda>y. cmp y x) (B1 @ B2)"
      and "R = filter (\<lambda>y. \<not> cmp y x) (B1 @ B2)"
    have lLR: "length L + length R = length B1 + length B2"
      unfolding L_def R_def
      using sum_length_filter_compl [of "\<lambda>y. cmp y x" "B1 @ B2"] by simp
    have p: "pv ?lo ?hi = length A + length B1" by (simp only: pk lB1)
    have "?hi = Suc (?lo + k) + length B2" using lB lB1 by simp
    also have "?lo + k = pv ?lo ?hi" by (rule pk [symmetric])
    finally have h: "?hi = Suc (pv ?lo ?hi) + length B2" .
    have part: "partition_vec cmp (A @ B @ C) ?lo ?hi (pv ?lo ?hi) c =
        Some (A @ L @ [x] @ R @ C, length L, c + length (B1 @ B2))"
    proof -
      have v: "A @ B @ C = A @ B1 @ [x] @ B2 @ C" by (simp add: B)
      show ?thesis
        unfolding L_def R_def by (rule partition_vec_spec [OF v refl p h])
    qed
    have part': "partition_vec cmp (A' @ B @ C') ?lo ?hi (pv ?lo ?hi) c =
        Some (A' @ L @ [x] @ R @ C', length L, c + length (B1 @ B2))"
    proof -
      have v: "A' @ B @ C' = A' @ B1 @ [x] @ B2 @ C'" by (simp add: B)
      have p': "pv ?lo ?hi = length A' + length B1" using p lA by simp
      show ?thesis
        unfolding L_def R_def by (rule partition_vec_spec [OF v lA [symmetric] p' h])
    qed
    from lLR lB have "length L < length B" by simp
    from less(1) [of L A' A "[x] @ R @ C" "c + length (B1 @ B2)" "[x] @ R @ C'", OF this lA]
    obtain L' c1 where r1: "f (A @ L @ [x] @ R @ C) ?lo (?lo + length L) (c + length (B1 @ B2)) =
        Some (A @ L' @ [x] @ R @ C, c1)"
      and r1': "f (A' @ L @ [x] @ R @ C') ?lo (?lo + length L) (c + length (B1 @ B2)) =
        Some (A' @ L' @ [x] @ R @ C', c1)"
      by auto
    have lL: "length L' = length L"
    proof -
      from qsort_helper_spec [of f cmp pv A L "[x] @ R @ C" "c + length (B1 @ B2)", OF unfold pv] r1
      obtain L'' where "A @ L' @ [x] @ R @ C = A @ L'' @ [x] @ R @ C" and "mset L'' = mset L"
        by auto
      then show ?thesis by (metis same_append_eq append_same_eq size_mset)
    qed
    from lLR lB have "length R < length B" by simp
    moreover have "length (A' @ L' @ [x]) = length (A @ L' @ [x])" using lA by simp
    ultimately obtain R' c2 where r2: "f ((A @ L' @ [x]) @ R @ C) (length (A @ L' @ [x]))
        (length (A @ L' @ [x]) + length R) c1 = Some ((A @ L' @ [x]) @ R' @ C, c2)"
      and r2': "f ((A' @ L' @ [x]) @ R @ C') (length (A @ L' @ [x]))
        (length (A @ L' @ [x]) + length R) c1 = Some ((A' @ L' @ [x]) @ R' @ C', c2)"
      using less(1) [of R "A' @ L' @ [x]" "A @ L' @ [x]" C c1 C'] by blast
    have hi: "length (A @ L' @ [x]) + length R = ?hi" using lL lLR lB by simp
    have lo': "length (A @ L' @ [x]) = ?lo + length L + 1" using lL by simp
    have s2: "f (A @ L' @ [x] @ R @ C) (?lo + length L + 1) ?hi c1 =
        Some (A @ (L' @ [x] @ R') @ C, c2)"
      using r2 [unfolded hi] unfolding lo' by simp
    have s2': "f (A' @ L' @ [x] @ R @ C') (?lo + length L + 1) ?hi c1 =
        Some (A' @ (L' @ [x] @ R') @ C', c2)"
      using r2' [unfolded hi] unfolding lo' by simp
    have "f (A @ B @ C) ?lo ?hi c = Some (A @ (L' @ [x] @ R') @ C, c2)"
      using False part r1 s2 by (subst unfold) simp
    moreover have "f (A' @ B @ C') ?lo ?hi c = Some (A' @ (L' @ [x] @ R') @ C', c2)"
      using False part' r1' s2' by (subst unfold) simp
    ultimately show ?thesis by blast
  qed
qed

lemma pquick_sort_local:
  "length A' = length A \<Longrightarrow>
   \<exists>B' c'. pquick_sort_helper cmp (A @ B @ C) (length A) (length A + length B) c =
       Some (A @ B' @ C, c') \<and>
     pquick_sort_helper cmp (A' @ B @ C') (length A) (length A + length B) c =
       Some (A' @ B' @ C', c')"
  by (rule qsort_helper_local [where pv = "\<lambda>lo hi. lo + (hi - lo) div 2"])
     (rule pquick_sort_helper.simps, rule mid_pivot_in_range)

lemma rpquick_sort_local:
  "length A' = length A \<Longrightarrow>
   \<exists>B' c'. rpquick_sort_helper cmp rnd (A @ B @ C) (length A) (length A + length B) c =
       Some (A @ B' @ C, c') \<and>
     rpquick_sort_helper cmp rnd (A' @ B @ C') (length A) (length A + length B) c =
       Some (A' @ B' @ C', c')"
  by (rule qsort_helper_local [where pv = "\<lambda>lo hi. rnd lo hi mod (hi - lo) + lo"])
     (rule rpquick_sort_helper.simps, rule rand_pivot_in_range)


section \<open>The claims about the sort procedures\<close>

lemma total_preorder_sort_cmp: "total_preorder sort_cmp"
  unfolding total_preorder_def sort_cmp_def by auto

lemma sorted_wrt_adjacent:
  "sorted_wrt cmp out \<Longrightarrow> i + 1 < length out \<Longrightarrow> cmp (out ! i) (out ! (i + 1))"
  by (simp add: sorted_wrt_iff_nth_less)

lemma sorted_values:
  assumes "\<exists>out n. res = Some (out, n) \<and> mset out = mset v \<and> sorted_wrt sort_cmp out"
  shows "\<exists>out n. res = Some (out, n) \<and>
     mset (map value_d out) = mset (map value_d v) \<and>
     (\<forall>i. i + 1 < length out \<longrightarrow> sort_cmp (out ! i) (out ! (i + 1)))"
proof -
  from assms obtain out n where r: "res = Some (out, n)"
    and ms: "mset out = mset v" and srt: "sorted_wrt sort_cmp out"
    by blast
  from ms have "mset (map value_d out) = mset (map value_d v)"
    by (metis mset_map)
  moreover have "\<forall>i. i + 1 < length out \<longrightarrow> sort_cmp (out ! i) (out ! (i + 1))"
    using sorted_wrt_adjacent [OF srt] by blast
  ultimately show ?thesis using r by blast
qed

text \<open>
  For every vector of data and the comparator \<open>sort_cmp\<close> (\<open>x.value <= y.value\<close>), each
  of the eight procedures that sorting.h implements itself (all that main.cpp registers
  but the last, \<open>std_sort\<close>) returns, the values of the vector it leaves are a
  permutation of the values it was given, and the comparator holds of every two adjacent
  places. The randomized quick sort does so whatever \<open>rand()\<close> returns.
\<close>

lemma sorting_h_sorts_correct:
  assumes reg: "(nm, srt) \<in> set (butlast (registered_sorts rnd lib))"
  shows "\<exists>out n. srt sort_cmp v = Some (out, n) \<and>
      mset (map value_d out) = mset (map value_d v) \<and>
      (\<forall>i. i + 1 < length out \<longrightarrow> sort_cmp (out ! i) (out ! (i + 1)))"
proof -
  note tp = total_preorder_sort_cmp
  from reg consider "srt = selection_sort" | "srt = insertion_sort" | "srt = bubble_sort"
    | "srt = merge_sort" | "srt = pmerge_sort" | "srt = quick_sort" | "srt = pquick_sort"
    | "srt = rpquick_sort rnd"
    unfolding registered_sorts_def by auto
  then show ?thesis
  proof cases
    case 1 then show ?thesis using sorted_values [OF selection_sort_correct [OF tp]] by simp
  next
    case 2 then show ?thesis using sorted_values [OF insertion_sort_correct [OF tp]] by simp
  next
    case 3 then show ?thesis using sorted_values [OF bubble_sort_correct [OF tp]] by simp
  next
    case 4 then show ?thesis using sorted_values [OF merge_sort_correct [OF tp]] by simp
  next
    case 5 then show ?thesis using sorted_values [OF pmerge_sort_correct [OF tp]] by simp
  next
    case 6 then show ?thesis using sorted_values [OF quick_sort_correct [OF tp]] by simp
  next
    case 7 then show ?thesis using sorted_values [OF pquick_sort_correct [OF tp]] by simp
  next
    case 8 then show ?thesis using sorted_values [OF rpquick_sort_correct [OF tp]] by simp
  qed
qed

text \<open>On the empty vector libstdc++'s \<open>std::sort\<close> returns at once.\<close>

lemma libstdcxx_sort_empty: "libstdcxx_sort cmp [] = Some ([], 0)"
  by (simp add: libstdcxx_sort_def)

text \<open>
  C1 fails on the code for \<open>std_sort\<close>. The comparator \<open>x.value <= y.value\<close> answers true
  on two equal values, and \<open>std::sort\<close> is written for a comparator that does not (the
  C++ standard asks for a strict weak ordering): the scans of its partition are stopped
  by the comparator's answer and by nothing else. On a vector of 17 data of the same
  value, libstdc++'s \<open>std::sort\<close> swaps the median of \<open>v[1]\<close>, \<open>v[8]\<close>, \<open>v[16]\<close> to the
  front after two comparisons, and the first scan of the partition,
  \<open>while (comp(first, pivot)) ++first\<close>, started at index 1 with the pivot at index 0,
  finds the comparator true at every index up to 16 and reads \<open>v[17]\<close>, past the end of
  the vector. So \<open>std_sort\<close> does not return with the vector sorted there, as the eight
  procedures of sorting.h do (\<open>sorting_h_sorts_correct\<close>).
\<close>

theorem std_sort_equal_values:
  "move_median_to_first sort_cmp (replicate 17 (SortingDatum_of 1)) 0 1 8 16 0 =
     Some (replicate 17 (SortingDatum_of 1), 2) \<and>
   scan_up sort_cmp (replicate 17 (SortingDatum_of 1)) 1 0 2 = None \<and>
   std_sort libstdcxx_sort sort_cmp (replicate 17 (SortingDatum_of 1)) = None"
  by code_simp

text \<open>
  With 16 equal values (no partition, one insertion sort), and with the twenty distinct
  values below (one partition), the same library function stays inside the vector and
  sorts.
\<close>

lemma std_sort_sixteen_equal_values:
  "map_option fst (std_sort libstdcxx_sort sort_cmp (replicate 16 (SortingDatum_of 1))) =
     Some (replicate 16 (SortingDatum_of 1))"
  by code_simp

lemma std_sort_distinct_example:
  "map_option (map value_d \<circ> fst)
     (std_sort libstdcxx_sort sort_cmp
        (map SortingDatum_of [20, 3, 17, 1, 9, 2, 7, 14, 5, 12, 11, 19, 4, 18, 6, 8, 10, 13, 15, 16])) =
   Some [1, 2, 3, 4, 5, 6, 7, 8, 9, 10, 11, 12, 13, 14, 15, 16, 17, 18, 19, 20]"
  by code_simp

text \<open>
  C2 (as the code has it). \<open>partition\<close> on \<open>[4,1,3,2,5]\<close> with \<open>lo = 0\<close>, \<open>hi = 5\<close> and the
  pivot index \<open>2\<close> (pivot value \<open>3\<close>) leaves \<open>[1,2,3,4,5]\<close>: the pivot at index \<open>2\<close>, \<open>1\<close> and
  \<open>2\<close> left of it, \<open>4\<close> and \<open>5\<close> right of it; it returns \<open>2\<close>, the number of elements in the
  first buffer, after four comparisons.
\<close>

theorem partition_scenario:
  "partition_vec (\<lambda>x y. x \<le> y) [4, 1, 3, 2, 5 :: int] 0 5 2 0 = Some ([1, 2, 3, 4, 5], 2, 4)"
  by code_simp

text \<open>
  The claim C2 as the spec states it (the pivot settled at index \<open>1\<close>, return value \<open>1\<close>)
  does not hold of this call.
\<close>

theorem partition_scenario_counterexample:
  "\<not> (\<exists>v' c'. partition_vec (\<lambda>x y. x \<le> y) [4, 1, 3, 2, 5 :: int] 0 5 2 0 = Some (v', 1, c') \<and>
        v' ! 1 = 3)"
proof -
  have "partition_vec (\<lambda>x y. x \<le> y) [4, 1, 3, 2, 5 :: int] 0 5 2 0 = Some ([1, 2, 3, 4, 5], 2, 4)"
    by code_simp
  then show ?thesis by simp
qed

text \<open>
  C3 (as the code has it). With the comparator \<open>sort_cmp\<close>, \<open>partition\<close> on the range
  \<open>B1 @ [x] @ B2\<close> of the vector \<open>A @ B1 @ [x] @ B2 @ C\<close> with the pivot \<open>x\<close> puts every other
  element of the range whose value is at most the pivot's, the equal ones among them,
  into the first buffer \<open>u1\<close>, in their order, and the elements of greater value into
  the second buffer \<open>u2\<close>; \<open>u1\<close> is written left of the pivot and \<open>u2\<close> right of it, and the
  number returned is the length of \<open>u1\<close>.
\<close>

theorem partition_equal_left:
  "partition_loop sort_cmp (A @ B1 @ [x] @ B2 @ C) (Suc (length A + length B1) + length B2)
       (length A + length B1) x (length A) [] [] c =
     Some (filter (\<lambda>y. value_d y \<le> value_d x) (B1 @ B2),
           filter (\<lambda>y. value_d x < value_d y) (B1 @ B2),
           c + length (B1 @ B2)) \<and>
   partition_vec sort_cmp (A @ B1 @ [x] @ B2 @ C) (length A)
       (Suc (length A + length B1) + length B2) (length A + length B1) c =
     Some (A @ filter (\<lambda>y. value_d y \<le> value_d x) (B1 @ B2) @ [x] @
             filter (\<lambda>y. value_d x < value_d y) (B1 @ B2) @ C,
           length (filter (\<lambda>y. value_d y \<le> value_d x) (B1 @ B2)),
           c + length (B1 @ B2))"
proof -
  let ?v = "A @ B1 @ [x] @ B2 @ C"
  let ?p = "length A + length B1" and ?hi = "Suc (length A + length B1) + length B2"
  have gt: "(\<lambda>y. \<not> sort_cmp y x) = (\<lambda>y. value_d x < value_d y)"
    by (auto simp: sort_cmp_def)
  have le: "(\<lambda>y. sort_cmp y x) = (\<lambda>y. value_d y \<le> value_d x)"
    by (auto simp: sort_cmp_def)
  have rng: "map ((!) ?v) (filter (\<lambda>k. k \<noteq> ?p) [length A..<?hi]) = B1 @ B2"
    by (rule range_without_pivot [OF refl refl])
  then have "length (map ((!) ?v) (filter (\<lambda>k. k \<noteq> ?p) [length A..<?hi])) = length (B1 @ B2)"
    by (simp only:)
  then have cnt: "length (filter (\<lambda>k. k \<noteq> ?p) [length A..<?hi]) = length (B1 @ B2)"
    by (simp only: length_map)
  have "?hi \<le> length ?v" by simp
  from partition_loop_spec [OF this, of sort_cmp ?p x "length A" "[]" "[]" c]
  have "partition_loop sort_cmp ?v ?hi ?p x (length A) [] [] c =
      Some (filter (\<lambda>y. sort_cmp y x) (B1 @ B2), filter (\<lambda>y. \<not> sort_cmp y x) (B1 @ B2),
            c + length (B1 @ B2))"
    by (simp only: rng cnt append_Nil)
  moreover have "partition_vec sort_cmp ?v (length A) ?hi ?p c =
      Some (A @ filter (\<lambda>y. sort_cmp y x) (B1 @ B2) @ [x] @
              filter (\<lambda>y. \<not> sort_cmp y x) (B1 @ B2) @ C,
            length (filter (\<lambda>y. sort_cmp y x) (B1 @ B2)), c + length (B1 @ B2))"
    by (rule partition_vec_spec [OF refl refl refl refl])
  ultimately show ?thesis unfolding gt le by simp
qed

text \<open>
  The claim C3 as the spec states it (an element equal to the pivot goes to the second,
  "not-less" buffer) fails on the vector of two data of value 7 with the pivot index 1:
  the other datum ends in \<open>u1\<close>, and \<open>u2\<close> stays empty.
\<close>

theorem partition_equal_counterexample:
  "partition_loop sort_cmp [SortingDatum_of 7, SortingDatum_of 7] 2 1 (SortingDatum_of 7) 0 [] [] 0
     = Some ([SortingDatum_of 7], [], 1) \<and>
   partition_vec sort_cmp [SortingDatum_of 7, SortingDatum_of 7] 0 2 1 0
     = Some ([SortingDatum_of 7, SortingDatum_of 7], 1, 1)"
  by code_simp

text \<open>
  C4. \<open>merge_sort\<close> with a comparator that compares keys by \<open>\<le>\<close> returns the vector ordered
  by key, a permutation of its input, in which the elements of any one key stand in the
  order they had in the input; on \<open>[(5,a),(3,b),(5,c)]\<close> with the first component as the
  key it returns \<open>[(3,b),(5,a),(5,c)]\<close>, after three comparisons.
\<close>

theorem merge_sort_stable:
  fixes key :: "'a \<Rightarrow> 'k :: linorder"
  shows "(\<exists>out n. merge_sort (\<lambda>x y. key x \<le> key y) v = Some (out, n) \<and>
        sorted (map key out) \<and> mset out = mset v \<and>
        (\<forall>k. filter (\<lambda>x. key x = k) out = filter (\<lambda>x. key x = k) v)) \<and>
     merge_sort (\<lambda>x y. fst x \<le> fst y) [(5 :: int, CHR ''a''), (3, CHR ''b''), (5, CHR ''c'')] =
       Some ([(3, CHR ''b''), (5, CHR ''a''), (5, CHR ''c'')], 3)"
proof
  let ?cmp = "\<lambda>x y. key x \<le> key y"
  have tp: "total_preorder ?cmp" unfolding total_preorder_def by auto
  from merge_sort_msort [of ?cmp v] obtain n
    where r: "merge_sort ?cmp v = Some (msort_list ?cmp v, n)" by blast
  have "sorted_wrt ?cmp (msort_list ?cmp v)" by (rule sorted_msort_list [OF tp])
  then have s: "sorted (map key (msort_list ?cmp v))"
    by (simp add: sorted_wrt_map)
  have st: "filter (\<lambda>x. key x = k) (msort_list ?cmp v) = filter (\<lambda>x. key x = k) v" for k
  proof (cases "\<exists>z. key z = k")
    case True
    then obtain z where z: "key z = k" by blast
    have "(\<lambda>w. key z \<le> key w \<and> key w \<le> key z) = (\<lambda>x. key x = k)"
      using z by auto
    with stable_msort_list [OF tp, of z v] show ?thesis by simp
  next
    case False
    then show ?thesis by simp
  qed
  from r s st show "\<exists>out n. merge_sort ?cmp v = Some (out, n) \<and> sorted (map key out) \<and>
      mset out = mset v \<and> (\<forall>k. filter (\<lambda>x. key x = k) out = filter (\<lambda>x. key x = k) v)"
    by (auto simp: mset_msort_list)
next
  show "merge_sort (\<lambda>x y. fst x \<le> fst y) [(5 :: int, CHR ''a''), (3, CHR ''b''), (5, CHR ''c'')] =
       Some ([(3, CHR ''b''), (5, CHR ''a''), (5, CHR ''c'')], 3)"
    by code_simp
qed

text \<open>
  C7. \<open>rpquick_sort\<close> returns on every vector, for every comparator and whatever numbers
  \<open>rand()\<close> gives (the pivot index \<open>rand() % (hi - lo) + lo\<close> lies in the range of the
  call, \<open>rand_pivot_in_range\<close>), and what it leaves is a permutation of the input. The
  helper is a partial function whose value \<open>None\<close> stands for a call that does not
  return; the theorem says that the value is never \<open>None\<close>.
\<close>

theorem rpquick_sort_terminates:
  "\<exists>out n. rpquick_sort rnd cmp v = Some (out, n) \<and> mset out = mset v"
  using rpquick_sort_frame [of cmp rnd "[]" v "[]" 0] by (auto simp: rpquick_sort_def)

text \<open>
  C8. On the empty vector every registered sort procedure returns the empty vector
  without one call of the comparator (the count is 0), \<open>std_sort\<close> provided the library's
  \<open>std::sort\<close> does so.
\<close>

theorem empty_vector_no_comparison:
  assumes lib: "lib cmp [] = Some ([], 0)"
    and reg: "(nm, srt) \<in> set (registered_sorts rnd lib)"
  shows "srt cmp [] = Some ([], 0)"
proof -
  from reg consider "srt = selection_sort" | "srt = insertion_sort" | "srt = bubble_sort"
    | "srt = merge_sort" | "srt = pmerge_sort" | "srt = quick_sort" | "srt = pquick_sort"
    | "srt = rpquick_sort rnd" | "srt = std_sort lib"
    unfolding registered_sorts_def by auto
  then show ?thesis
  proof cases
    case 1 then show ?thesis by (simp add: selection_sort_def sel_outer.simps)
  next
    case 2 then show ?thesis by (simp add: insertion_sort_def ins_outer.simps)
  next
    case 3 then show ?thesis by (simp add: bubble_sort_def)
  next
    case 4 then show ?thesis by (simp add: merge_sort_def merge_sort_helper.simps)
  next
    case 5 then show ?thesis by (simp add: pmerge_sort_def pmerge_sort_helper.simps)
  next
    case 6 then show ?thesis by (simp add: quick_sort_def quick_sort_helper.simps)
  next
    case 7 then show ?thesis by (simp add: pquick_sort_def pquick_sort_helper.simps)
  next
    case 8 then show ?thesis by (simp add: rpquick_sort_def rpquick_sort_helper.simps)
  next
    case 9 then show ?thesis using lib by (simp add: std_sort_def)
  qed
qed

theorem empty_vector_no_comparison_witness:
  "std_sort merge_sort sort_cmp [] = Some ([], 0)"
proof (rule empty_vector_no_comparison [where lib = merge_sort and nm = "''std::sort''"
      and rnd = "\<lambda>lo hi. 0"])
  show "merge_sort sort_cmp [] = Some ([], 0)"
    by (simp add: merge_sort_def merge_sort_helper.simps)
  show "(''std::sort'', std_sort merge_sort) \<in> set (registered_sorts (\<lambda>lo hi. 0) merge_sort)"
    by (simp add: registered_sorts_def)
qed


section \<open>The run session\<close>

subsection \<open>sort_setup\<close>

lemma select_loop_spec:
  "select_loop a i =
     a\<lparr>sort_queue := sort_queue a @ filter (\<lambda>q. selected (sort_algos a ! q)) [i..<length (sort_algos a)],
       sort_threads := sort_threads a @
         replicate (length (filter (\<lambda>q. selected (sort_algos a ! q)) [i..<length (sort_algos a)]))
           Not_a_thread\<rparr>"
proof (induction a i rule: select_loop.induct)
  case (1 a i)
  show ?case
  proof (cases "i < length (sort_algos a)")
    case False
    then show ?thesis by (simp add: select_loop.simps [of a i])
  next
    case True
    then have upt: "[i..<length (sort_algos a)] = i # [i + 1..<length (sort_algos a)]"
      by (simp add: upt_conv_Cons)
    show ?thesis
    proof (cases "selected (sort_algos a ! i)")
      case sel: True
      from "1.IH"(1) [OF True sel] True sel show ?thesis
        unfolding select_loop.simps [of a i] upt
        by (simp add: replicate_app_Cons_same)
    next
      case sel: False
      from "1.IH"(2) [OF True sel] True sel show ?thesis
        unfolding select_loop.simps [of a i] upt by simp
    qed
  qed
qed

lemma filter_index_length:
  "length (filter (\<lambda>q. P (xs ! q)) [0..<length xs]) = length (filter P xs)"
proof -
  have "filter P xs = filter P (map ((!) xs) [0..<length xs])" by (simp add: map_nth)
  also have "\<dots> = map ((!) xs) (filter (\<lambda>q. P (xs ! q)) [0..<length xs])"
    by (simp add: filter_map comp_def)
  finally show ?thesis by simp
qed

lemma fill_loop_spec:
  "d \<noteq> [] \<Longrightarrow>
   fill_loop d n i = d[0 := d ! 0 @ map (\<lambda>t. SortingDatum_of (int t + 1)) [i..<n]]"
proof (induction d n i rule: fill_loop.induct)
  case (1 d n i)
  show ?case
  proof (cases "i < n")
    case False
    then show ?thesis by (simp add: fill_loop.simps [of d n i])
  next
    case True
    then have upt: "[i..<n] = i # [i + 1..<n]" by (simp add: upt_conv_Cons)
    from "1.prems" have "d[0 := d ! 0 @ [SortingDatum_of (int i + 1)]] \<noteq> []" by simp
    from "1.IH" [OF True this] True "1.prems" show ?thesis
      unfolding fill_loop.simps [of d n i] upt by (cases d) simp_all
  qed
qed

lemma copy_inner_spec:
  "0 < j \<Longrightarrow> j < length d \<Longrightarrow>
   copy_inner d j n i = d[j := d ! j @ map (\<lambda>t. SortingDatum_of (value_d (d ! 0 ! t))) [i..<n]]"
proof (induction d j n i rule: copy_inner.induct)
  case (1 d j n i)
  show ?case
  proof (cases "i < n")
    case False
    then show ?thesis by (simp add: copy_inner.simps [of d j n i])
  next
    case True
    then have upt: "[i..<n] = i # [i + 1..<n]" by (simp add: upt_conv_Cons)
    let ?d = "d[j := d ! j @ [SortingDatum_of (value_d (d ! 0 ! i))]]"
    from "1.prems" have "j < length ?d" by simp
    from "1.IH" [OF True "1.prems"(1) this] True "1.prems" show ?thesis
      unfolding copy_inner.simps [of d j n i] upt by simp
  qed
qed

lemma copy_outer_spec:
  "j = length d \<Longrightarrow> 0 < j \<Longrightarrow>
   copy_outer d k n j =
     d @ replicate (k + 1 - j) (map (\<lambda>t. SortingDatum_of (value_d (d ! 0 ! t))) [0..<n])"
proof (induction d k n j rule: copy_outer.induct)
  case (1 d k n j)
  show ?case
  proof (cases "j < k + 1")
    case False
    then show ?thesis by (simp add: copy_outer.simps [of d k n j])
  next
    case True
    let ?c = "map (\<lambda>t. SortingDatum_of (value_d (d ! 0 ! t))) [0..<n]"
    have inner: "copy_inner (d @ [[]]) j n 0 = d @ [?c]"
      using "1.prems" copy_inner_spec [of j "d @ [[]]" n 0]
      by (simp add: nth_append)
    have d0: "(d @ [?c]) ! 0 = d ! 0" using "1.prems" by (simp add: nth_append)
    have "j + 1 = length (d @ [?c])" using "1.prems" by simp
    from "1.IH" [OF True, unfolded inner, OF this] 
    have "copy_outer (d @ [?c]) k n (j + 1) = (d @ [?c]) @ replicate (k + 1 - (j + 1)) ?c"
      unfolding d0 by simp
    moreover from True have "replicate (k + 1 - j) ?c = ?c # replicate (k + 1 - (j + 1)) ?c"
      by (metis Suc_diff_Suc Suc_eq_plus1 diff_Suc_Suc replicate_Suc)
    ultimately show ?thesis
      unfolding copy_outer.simps [of d k n j] inner using True by simp
  qed
qed

lemma fresh_copy_values: "length d0 = n \<Longrightarrow> map value_d (fresh_copy d0 n) = map value_d d0"
  by (rule nth_equalityI) (simp_all add: fresh_copy_def SortingDatum_of_def)

lemma base_data_values: "map value_d (base_data n) = map int [1..<n + 1]"
  by (rule nth_equalityI) (simp_all add: base_data_def SortingDatum_of_def del: upt_Suc)

lemma sort_setup_spec:
  assumes empty: "sort_queue a = []" "sort_threads a = []" "sort_data a = []"
  shows "sort_setup shuffle a =
    (if length (filter selected (sort_algos a)) = 0 then a\<lparr>mode := SORTED\<rparr>
     else a\<lparr>sort_queue := filter (\<lambda>q. selected (sort_algos a ! q)) [0..<length (sort_algos a)],
            sort_threads := replicate (length (filter selected (sort_algos a))) Not_a_thread,
            sort_data := shuffle (base_data (sort_n a)) #
              replicate (length (filter selected (sort_algos a)))
                (fresh_copy (shuffle (base_data (sort_n a))) (sort_n a))\<rparr>)"
proof -
  let ?q = "filter (\<lambda>q. selected (sort_algos a ! q)) [0..<length (sort_algos a)]"
  let ?k = "length (filter selected (sort_algos a))"
  have k: "length ?q = ?k" by (rule filter_index_length)
  have sel: "select_loop a 0 = a\<lparr>sort_queue := ?q, sort_threads := replicate ?k Not_a_thread\<rparr>"
    unfolding select_loop_spec [of a 0] using empty k by simp
  show ?thesis
  proof (cases "?k = 0")
    case True
    with k have "?q = []" by simp
    with True sel empty show ?thesis by (simp add: sort_setup_def)
  next
    case False
    let ?d0 = "shuffle (base_data (sort_n a))"
    have fill: "fill_loop ([] @ [[]]) (sort_n a) 0 = [base_data (sort_n a)]"
      using fill_loop_spec [of "[[]]" "sort_n a" 0] by (simp add: base_data_def)
    have "copy_outer [?d0] ?k (sort_n a) 1 = [?d0] @ replicate (?k + 1 - 1) (fresh_copy ?d0 (sort_n a))"
      using copy_outer_spec [of 1 "[?d0]" ?k "sort_n a"] by (simp add: fresh_copy_def)
    then have copy: "copy_outer [?d0] ?k (sort_n a) 1 = ?d0 # replicate ?k (fresh_copy ?d0 (sort_n a))"
      by simp
    from False k have qne: "?q \<noteq> []" by auto
    with False show ?thesis
      unfolding sort_setup_def sel using empty fill copy k by (simp add: Let_def)
  qed
qed


subsection \<open>sort_launch\<close>

lemma run_threads_spec:
  "run_threads tm a i = Some a' \<Longrightarrow>
   mode a' = mode a \<and> sort_algos a' = sort_algos a \<and> sort_n a' = sort_n a \<and>
   sort_queue a' = sort_queue a \<and> length (sort_data a') = length (sort_data a) \<and>
   length (sort_threads a') = length (sort_threads a) \<and>
   (\<forall>j. j < i \<or> length (sort_queue a) \<le> j \<longrightarrow>
      sort_data a' ! j = sort_data a ! j \<and> sort_threads a' ! j = sort_threads a ! j) \<and>
   (\<forall>j. i \<le> j \<and> j < length (sort_queue a) \<longrightarrow>
      j < length (sort_data a) \<and> j < length (sort_threads a) \<and>
      (\<exists>out n. sort_f (sort_algos a ! (sort_queue a ! j)) sort_cmp (sort_data a ! j) = Some (out, n) \<and>
         sort_data a' ! j = set_timers (tm j) out) \<and>
      sort_threads a' ! j = Finished (sort_queue a ! j) j)"
proof (induction tm a i arbitrary: a' rule: run_threads.induct)
  case (1 tm a i)
  show ?case
  proof (cases "i < length (sort_queue a)")
    case False
    with "1.prems" have "a' = a" by (simp add: run_threads.simps [of tm a i])
    with False show ?thesis by auto
  next
    case True
    from "1.prems" True have rng: "i < length (sort_threads a) \<and> i < length (sort_data a) \<and>
        sort_queue a ! i < length (sort_algos a)"
      by (simp add: run_threads.simps [of tm a i] split: if_splits)
    with "1.prems" True obtain out n
      where srt: "sort_f (sort_algos a ! (sort_queue a ! i)) sort_cmp (sort_data a ! i) = Some (out, n)"
      by (auto simp: run_threads.simps [of tm a i] split: option.splits)
    let ?a1 = "a\<lparr>sort_data := (sort_data a)[i := set_timers (tm i) out],
                 sort_threads := (sort_threads a)[i := Finished (sort_queue a ! i) i]\<rparr>"
    from "1.prems" True rng srt have rec: "run_threads tm ?a1 (i + 1) = Some a'"
      by (simp add: run_threads.simps [of tm a i])
    note IH = "1.IH" [OF True rng srt refl rec]
    from IH have fields: "mode a' = mode a" "sort_algos a' = sort_algos a" "sort_n a' = sort_n a"
      "sort_queue a' = sort_queue a" "length (sort_data a') = length (sort_data a)"
      "length (sort_threads a') = length (sort_threads a)"
      by simp_all
    have outside: "sort_data a' ! j = sort_data a ! j \<and> sort_threads a' ! j = sort_threads a ! j"
      if "j < i \<or> length (sort_queue a) \<le> j" for j
    proof -
      from that True have "j \<noteq> i" and "j < i + 1 \<or> length (sort_queue ?a1) \<le> j" by auto
      with IH have "sort_data a' ! j = sort_data ?a1 ! j \<and> sort_threads a' ! j = sort_threads ?a1 ! j"
        by blast
      with \<open>j \<noteq> i\<close> show ?thesis by simp
    qed
    have inside: "j < length (sort_data a) \<and> j < length (sort_threads a) \<and>
      (\<exists>out n. sort_f (sort_algos a ! (sort_queue a ! j)) sort_cmp (sort_data a ! j) = Some (out, n) \<and>
         sort_data a' ! j = set_timers (tm j) out) \<and>
      sort_threads a' ! j = Finished (sort_queue a ! j) j"
      if "i \<le> j \<and> j < length (sort_queue a)" for j
    proof (cases "j = i")
      case True
      from IH have "sort_data a' ! i = sort_data ?a1 ! i \<and> sort_threads a' ! i = sort_threads ?a1 ! i"
        by simp
      with rng have "sort_data a' ! i = set_timers (tm i) out"
        and "sort_threads a' ! i = Finished (sort_queue a ! i) i" by simp_all
      with True rng srt show ?thesis by blast
    next
      case False
      with that have "i + 1 \<le> j \<and> j < length (sort_queue ?a1)" by simp
      with IH have "j < length (sort_data ?a1) \<and> j < length (sort_threads ?a1) \<and>
        (\<exists>out n. sort_f (sort_algos ?a1 ! (sort_queue ?a1 ! j)) sort_cmp (sort_data ?a1 ! j) = Some (out, n) \<and>
           sort_data a' ! j = set_timers (tm j) out) \<and>
        sort_threads a' ! j = Finished (sort_queue ?a1 ! j) j"
        by blast
      with False show ?thesis by simp
    qed
    from fields outside inside show ?thesis by blast
  qed
qed

lemma sort_draw_data_end_spec:
  "sort_draw_data_end a = Some a' \<Longrightarrow>
   a' = a \<and> (\<forall>i. i < length (sort_threads a) \<longrightarrow>
     i < length (sort_data a) \<and> sort_n a \<le> length (sort_data a ! i))"
  by (auto simp: sort_draw_data_end_def list_all_iff split: if_splits)

subsection \<open>The restart key\<close>

lemma restored_length: "n \<le> length dst \<Longrightarrow> length (restored src dst n) = length dst"
  by (simp add: restored_def)

lemma restored_values:
  "n \<le> length dst \<Longrightarrow> n \<le> length src \<Longrightarrow>
   map value_d (take n (restored src dst n)) = map value_d (take n src)"
  by (rule nth_equalityI) (simp_all add: restored_def nth_append)

lemma restored_timers: "n \<le> length dst \<Longrightarrow> map timer (restored src dst n) = map timer dst"
  by (rule nth_equalityI) (auto simp: restored_def nth_append)

lemma restart_inner_spec:
  "i < length d \<Longrightarrow> k < length d \<Longrightarrow> i \<noteq> k \<Longrightarrow> n \<le> length (d ! i) \<Longrightarrow>
   n \<le> length (d ! k) \<Longrightarrow> j \<le> n \<Longrightarrow>
   restart_inner d k n i j =
     Some (d[i := take j (d ! i) @
                 map (\<lambda>t. (d ! i ! t)\<lparr>value_d := value_d (d ! k ! t)\<rparr>) [j..<n] @
                 drop n (d ! i)])"
proof (induction d k n i j rule: restart_inner.induct)
  case (1 d k n i j)
  show ?case
  proof (cases "j < n")
    case False
    then have "restart_inner d k n i j = Some d"
      by (simp add: restart_inner.simps [of d k n i j])
    moreover from False "1.prems" have "j = n" by simp
    ultimately show ?thesis using "1.prems" by simp
  next
    case True
    let ?X = "(d ! i ! j)\<lparr>value_d := value_d (d ! k ! j)\<rparr>"
    let ?d1 = "d[i := (d ! i)[j := ?X]]"
    from "1.prems" True have rng: "i < length d \<and> k < length d \<and> j < length (d ! i) \<and> j < length (d ! k)"
      by simp
    have d1i: "?d1 ! i = (d ! i)[j := ?X]" and d1k: "?d1 ! k = d ! k"
      using "1.prems" by simp_all
    have step: "restart_inner d k n i j = restart_inner ?d1 k n i (j + 1)"
      using True rng by (simp add: restart_inner.simps [of d k n i j])
    have pre: "i < length ?d1" "k < length ?d1" "n \<le> length (?d1 ! i)" "n \<le> length (?d1 ! k)"
      "j + 1 \<le> n"
      using "1.prems" True by simp_all
    have t1: "take (j + 1) ((d ! i)[j := ?X]) = take j (d ! i) @ [?X]"
      using rng by (simp add: take_Suc_conv_app_nth)
    have t2: "map (\<lambda>t. ((d ! i)[j := ?X] ! t)\<lparr>value_d := value_d (d ! k ! t)\<rparr>) [j + 1..<n] =
        map (\<lambda>t. (d ! i ! t)\<lparr>value_d := value_d (d ! k ! t)\<rparr>) [j + 1..<n]"
      by (rule map_cong) auto
    have t3: "drop n ((d ! i)[j := ?X]) = drop n (d ! i)" using True by simp
    have t4: "[j..<n] = j # [j + 1..<n]" using True by (simp add: upt_conv_Cons)
    from "1.IH" [OF True rng pre(1,2) "1.prems"(3) pre(3,4,5)]
    show ?thesis
      unfolding step d1i d1k t1 t2 t3 t4 by simp
  qed
qed

lemma restart_inner_restored:
  "i < length d \<Longrightarrow> k < length d \<Longrightarrow> i \<noteq> k \<Longrightarrow> n \<le> length (d ! i) \<Longrightarrow>
   n \<le> length (d ! k) \<Longrightarrow>
   restart_inner d k n i 0 = Some (d[i := restored (d ! k) (d ! i) n])"
  using restart_inner_spec [of i d k n 0] by (simp add: restored_def)

lemma restart_outer_spec:
  "k < length d \<Longrightarrow> (\<forall>t. t \<le> k \<longrightarrow> n \<le> length (d ! t)) \<Longrightarrow>
   \<exists>d'. restart_outer d k n i = Some d' \<and> length d' = length d \<and>
     (\<forall>t. t < length d \<longrightarrow>
        d' ! t = (if i \<le> t \<and> t < k then restored (d ! k) (d ! t) n else d ! t))"
proof (induction d k n i rule: restart_outer.induct)
  case (1 d k n i)
  show ?case
  proof (cases "i < k")
    case False
    then show ?thesis by (auto simp: restart_outer.simps [of d k n i])
  next
    case True
    let ?d1 = "d[i := restored (d ! k) (d ! i) n]"
    from "1.prems" True have inner: "restart_inner d k n i 0 = Some ?d1"
      by (intro restart_inner_restored) simp_all
    have k1: "k < length ?d1" using "1.prems" by simp
    have len1: "\<forall>t. t \<le> k \<longrightarrow> n \<le> length (?d1 ! t)"
    proof (intro allI impI)
      fix t assume "t \<le> k"
      with "1.prems" True show "n \<le> length (?d1 ! t)"
        by (cases "t = i") (simp_all add: restored_length)
    qed
    from "1.IH" [OF True inner k1 len1]
    obtain d' where rec: "restart_outer ?d1 k n (i + 1) = Some d'"
      and len: "length d' = length ?d1"
      and each: "\<forall>t. t < length ?d1 \<longrightarrow>
        d' ! t = (if i + 1 \<le> t \<and> t < k then restored (?d1 ! k) (?d1 ! t) n else ?d1 ! t)"
      by blast
    from True inner rec have eq: "restart_outer d k n i = Some d'"
      by (simp add: restart_outer.simps [of d k n i])
    have "d' ! t = (if i \<le> t \<and> t < k then restored (d ! k) (d ! t) n else d ! t)"
      if "t < length d" for t
    proof (cases "t = i")
      case True
      with each that \<open>i < k\<close> "1.prems" show ?thesis by simp
    next
      case False
      with each that \<open>i < k\<close> "1.prems" show ?thesis by auto
    qed
    with eq len show ?thesis by simp
  qed
qed


subsection \<open>sort_draw_data and the comparator\<close>

lemma draw_datum_value [simp]: "value_d (draw_datum fin x) = value_d x"
  by (simp add: draw_datum_def)

lemma draw_row_length [simp]: "length (draw_row fin n xs) = length xs"
  by (simp add: draw_row_def)

lemma draw_row_values [simp]: "map value_d (draw_row fin n xs) = map value_d xs"
proof -
  have "map value_d (draw_row fin n xs) = map value_d (take n xs) @ map value_d (drop n xs)"
    by (simp add: draw_row_def)
  also have "\<dots> = map value_d (take n xs @ drop n xs)" by (simp only: map_append)
  finally show ?thesis by simp
qed

lemma draw_row_end [simp]: "draw_row True n xs = xs"
proof -
  have "draw_datum True = (\<lambda>x. x)" by (rule ext) (simp add: draw_datum_def)
  then show ?thesis by (simp add: draw_row_def)
qed

lemma draw_inner_result:
  "draw_inner d fin n i j = Some d' \<Longrightarrow> j \<le> n \<Longrightarrow>
   d' = d[i := take j (d ! i) @ map (draw_datum fin) (drop j (take n (d ! i))) @ drop n (d ! i)]"
proof (induction d fin n i j rule: draw_inner.induct)
  case (1 d fin n i j)
  show ?case
  proof (cases "j < n")
    case False
    with "1.prems" have "d' = d" and "j = n"
      by (simp_all add: draw_inner.simps [of d fin n i j])
    then show ?thesis by simp
  next
    case True
    from "1.prems" True have rng: "i < length d \<and> j < length (d ! i)"
      by (simp add: draw_inner.simps [of d fin n i j] split: if_splits)
    let ?X = "draw_datum fin (d ! i ! j)"
    let ?d1 = "d[i := (d ! i)[j := ?X]]"
    have step: "draw_inner ?d1 fin n i (j + 1) = Some d'"
    proof (cases "fin \<or> timer (d ! i ! j) = 0")
      case True
      then have "?X = d ! i ! j" by (simp add: draw_datum_def)
      then have "?d1 = d" by simp
      with "1.prems" \<open>j < n\<close> rng True show ?thesis
        by (simp add: draw_inner.simps [of d fin n i j])
    next
      case False
      then have "?X = (d ! i ! j)\<lparr>timer := timer (d ! i ! j) - 1\<rparr>" by (simp add: draw_datum_def)
      with "1.prems" \<open>j < n\<close> rng False show ?thesis
        by (simp add: draw_inner.simps [of d fin n i j])
    qed
    have d1i: "?d1 ! i = (d ! i)[j := ?X]" using rng by simp
    have t1: "take (j + 1) ((d ! i)[j := ?X]) = take j (d ! i) @ [?X]"
      using rng by (simp add: take_Suc_conv_app_nth)
    have t2: "drop (j + 1) (take n ((d ! i)[j := ?X])) = drop (j + 1) (take n (d ! i))"
      by (simp add: drop_take)
    have t3: "drop n ((d ! i)[j := ?X]) = drop n (d ! i)" using True by simp
    have t4: "drop j (take n (d ! i)) = (d ! i ! j) # drop (j + 1) (take n (d ! i))"
      using Cons_nth_drop_Suc [of j "take n (d ! i)"] rng True by simp
    have "d' = ?d1[i := take (j + 1) (?d1 ! i) @
        map (draw_datum fin) (drop (j + 1) (take n (?d1 ! i))) @ drop n (?d1 ! i)]"
    proof (cases "fin \<or> timer (d ! i ! j) = 0")
      case c: True
      then have X: "?X = d ! i ! j" by (simp add: draw_datum_def)
      have d1eq: "?d1 = d" unfolding X by simp
      from step have s: "draw_inner d fin n i (j + 1) = Some d'" unfolding d1eq .
      from True have "j + 1 \<le> n" by simp
      from "1.IH"(1) [OF True rng c s this] show ?thesis unfolding d1eq .
    next
      case c: False
      let ?Y = "(d ! i ! j)\<lparr>timer := timer (d ! i ! j) - 1\<rparr>"
      from c have XY: "?X = ?Y" by (simp add: draw_datum_def)
      from step have s: "draw_inner (d[i := (d ! i)[j := ?Y]]) fin n i (j + 1) = Some d'"
        unfolding XY .
      from True have "j + 1 \<le> n" by simp
      from "1.IH"(2) [OF True rng c s this] show ?thesis unfolding XY .
    qed
    then show ?thesis
      unfolding d1i t1 t2 t3 t4 by simp
  qed
qed

lemma draw_inner_row:
  "draw_inner d fin n i 0 = Some d' \<Longrightarrow> d' = d[i := draw_row fin n (d ! i)]"
  using draw_inner_result [of d fin n i 0 d'] by (simp add: draw_row_def)

lemma draw_inner_total:
  "i < length d \<Longrightarrow> n \<le> length (d ! i) \<Longrightarrow> \<exists>d'. draw_inner d fin n i j = Some d'"
proof (induction d fin n i j rule: draw_inner.induct)
  case (1 d fin n i j)
  show ?case
  proof (cases "j < n")
    case False
    then show ?thesis by (simp add: draw_inner.simps [of d fin n i j])
  next
    case True
    with "1.prems" have rng: "i < length d \<and> j < length (d ! i)" by simp
    show ?thesis
    proof (cases "fin \<or> timer (d ! i ! j) = 0")
      case c: True
      have eq: "draw_inner d fin n i j = draw_inner d fin n i (j + 1)"
        using True rng c by (simp add: draw_inner.simps [of d fin n i j])
      from "1.IH"(1) [OF True rng c "1.prems"] show ?thesis unfolding eq .
    next
      case c: False
      let ?d1 = "d[i := (d ! i)[j := (d ! i ! j)\<lparr>timer := timer (d ! i ! j) - 1\<rparr>]]"
      have "i < length ?d1" "n \<le> length (?d1 ! i)" using "1.prems" by simp_all
      then have rec: "\<exists>d'. draw_inner ?d1 fin n i (j + 1) = Some d'"
        by (rule "1.IH"(2) [OF True rng c])
      have eq: "draw_inner d fin n i j = draw_inner ?d1 fin n i (j + 1)"
        unfolding draw_inner.simps [of d fin n i j] using True rng c by simp
      from rec show ?thesis unfolding eq .
    qed
  qed
qed

lemma draw_outer_result:
  "draw_outer a d fin i = Some d' \<Longrightarrow>
   length d' = length d \<and>
   (\<forall>t. t < length d \<longrightarrow>
      d' ! t = (if i \<le> t \<and> t < length (sort_threads a) then draw_row fin (sort_n a) (d ! t)
                else d ! t))"
proof (induction a d fin i arbitrary: d' rule: draw_outer.induct)
  case (1 a d fin i)
  show ?case
  proof (cases "i < length (sort_threads a)")
    case False
    with "1.prems" have "d' = d" by (simp add: draw_outer.simps [of a d fin i])
    with False show ?thesis by auto
  next
    case True
    from "1.prems" True obtain d1 where inner: "draw_inner d fin (sort_n a) i 0 = Some d1"
      by (auto simp: draw_outer.simps [of a d fin i] split: option.splits)
    from "1.prems" True inner have q: "i < length (sort_queue a) \<and> sort_queue a ! i < length (sort_algos a)"
      and rec: "draw_outer a d1 fin (i + 1) = Some d'"
      by (simp_all add: draw_outer.simps [of a d fin i] split: if_splits)
    from draw_inner_row [OF inner] have d1: "d1 = d[i := draw_row fin (sort_n a) (d ! i)]" .
    from "1.IH" [OF True inner q rec]
    have len: "length d' = length d1"
      and each: "\<forall>t. t < length d1 \<longrightarrow>
        d' ! t = (if i + 1 \<le> t \<and> t < length (sort_threads a)
                  then draw_row fin (sort_n a) (d1 ! t) else d1 ! t)"
      by simp_all
    have "d' ! t = (if i \<le> t \<and> t < length (sort_threads a) then draw_row fin (sort_n a) (d ! t)
                else d ! t)" if "t < length d" for t
    proof (cases "t = i")
      case True
      with each that \<open>i < length (sort_threads a)\<close> show ?thesis by (simp add: d1)
    next
      case False
      with each that show ?thesis by (auto simp: d1)
    qed
    with len show ?thesis by (simp add: d1)
  qed
qed

lemma draw_outer_total:
  "(\<forall>t. t < length (sort_threads a) \<longrightarrow>
      t < length d \<and> sort_n a \<le> length (d ! t) \<and> t < length (sort_queue a) \<and>
      sort_queue a ! t < length (sort_algos a)) \<Longrightarrow>
   \<exists>d'. draw_outer a d fin i = Some d'"
proof (induction a d fin i rule: draw_outer.induct)
  case (1 a d fin i)
  show ?case
  proof (cases "i < length (sort_threads a)")
    case False
    then show ?thesis by (simp add: draw_outer.simps [of a d fin i])
  next
    case True
    with "1.prems" have rng: "i < length d" "sort_n a \<le> length (d ! i)"
      and q: "i < length (sort_queue a) \<and> sort_queue a ! i < length (sort_algos a)"
      by simp_all
    from draw_inner_total [OF rng] obtain d1 where inner: "draw_inner d fin (sort_n a) i 0 = Some d1"
      by blast
    from draw_inner_row [OF inner] have d1: "d1 = d[i := draw_row fin (sort_n a) (d ! i)]" .
    have "\<forall>t. t < length (sort_threads a) \<longrightarrow>
      t < length d1 \<and> sort_n a \<le> length (d1 ! t) \<and> t < length (sort_queue a) \<and>
      sort_queue a ! t < length (sort_algos a)"
    proof (intro allI impI)
      fix t assume "t < length (sort_threads a)"
      with "1.prems" show "t < length d1 \<and> sort_n a \<le> length (d1 ! t) \<and> t < length (sort_queue a) \<and>
        sort_queue a ! t < length (sort_algos a)"
        by (cases "t = i") (simp_all add: d1)
    qed
    from "1.IH" [OF True inner q this] obtain d' where "draw_outer a d1 fin (i + 1) = Some d'"
      by blast
    with True inner q show ?thesis by (simp add: draw_outer.simps [of a d fin i])
  qed
qed

lemma sort_draw_data_result:
  assumes "sort_draw_data fin a = Some a'"
  shows "mode a' = mode a \<and> sort_algos a' = sort_algos a \<and> sort_n a' = sort_n a \<and>
    sort_queue a' = sort_queue a \<and> sort_threads a' = sort_threads a \<and>
    length (sort_data a') = length (sort_data a) \<and>
    (\<forall>t. t < length (sort_data a) \<longrightarrow>
       sort_data a' ! t =
         (if t < length (sort_threads a) then draw_row fin (sort_n a) (sort_data a ! t)
          else sort_data a ! t))"
proof -
  from assms obtain d where d: "draw_outer a (sort_data a) fin 0 = Some d"
    and a': "a' = a\<lparr>sort_data := d\<rparr>"
    by (auto simp: sort_draw_data_def split: option.splits)
  from draw_outer_result [OF d] a' show ?thesis by simp
qed

lemma sort_draw_data_total:
  assumes "\<forall>t. t < length (sort_threads a) \<longrightarrow>
      t < length (sort_data a) \<and> sort_n a \<le> length (sort_data a ! t) \<and>
      t < length (sort_queue a) \<and> sort_queue a ! t < length (sort_algos a)"
  shows "\<exists>a'. sort_draw_data fin a = Some a'"
  using draw_outer_total [OF assms, of fin 0] by (auto simp: sort_draw_data_def)

lemma sort_draw_data_end_refines:
  assumes "sort_draw_data_end a = Some a'"
  shows "sort_draw_data True a = Some a'"
proof -
  from assms have a': "a' = a"
    and shape: "\<forall>t. t < length (sort_threads a) \<longrightarrow>
      t < length (sort_data a) \<and> sort_n a \<le> length (sort_data a ! t) \<and>
      t < length (sort_queue a) \<and> sort_queue a ! t < length (sort_algos a)"
    by (auto simp: sort_draw_data_end_def list_all_iff split: if_splits)
  from sort_draw_data_total [OF shape] obtain a1 where r: "sort_draw_data True a = Some a1"
    by blast
  note R = sort_draw_data_result [OF r]
  have "sort_data a1 = sort_data a"
  proof (rule nth_equalityI)
    show "length (sort_data a1) = length (sort_data a)" using R by simp
  next
    fix t assume "t < length (sort_data a1)"
    with R show "sort_data a1 ! t = sort_data a ! t" by simp
  qed
  with R have "a1 = a" by simp
  with r a' show ?thesis by simp
qed

lemma set_timer_result:
  assumes "set_timer i x a = Some a1"
  shows "mode a1 = mode a \<and> sort_algos a1 = sort_algos a \<and> sort_n a1 = sort_n a \<and>
    sort_queue a1 = sort_queue a \<and> sort_threads a1 = sort_threads a \<and>
    length (sort_data a1) = length (sort_data a) \<and>
    (\<forall>t. t \<noteq> i \<longrightarrow> sort_data a1 ! t = sort_data a ! t) \<and>
    map value_d (sort_data a1 ! i) = map value_d (sort_data a ! i) \<and>
    (\<forall>p. x = Elem p \<longrightarrow> i < length (sort_data a) \<and> p < length (sort_data a ! i))"
proof (cases x)
  case (Temp t)
  with assms show ?thesis by (simp add: set_timer_def)
next
  case (Elem p)
  with assms have rng: "i < length (sort_data a)" "p < length (sort_data a ! i)"
    and a1: "a1 = a\<lparr>sort_data :=
       (sort_data a)[i := (sort_data a ! i)[p := (sort_data a ! i ! p)\<lparr>timer := 5\<rparr>]]\<rparr>"
    by (simp_all add: set_timer_def split: if_splits)
  have "map value_d ((sort_data a ! i)[p := (sort_data a ! i ! p)\<lparr>timer := 5\<rparr>]) =
      map value_d (sort_data a ! i)"
    using rng by (intro nth_equalityI) (auto simp: nth_list_update)
  with rng a1 Elem show ?thesis by simp
qed

lemma sort_cmp_call_result:
  assumes call: "sort_cmp_call a i x y = Some (a', b)"
  shows "(b \<longleftrightarrow> sort_cmp (operand_datum a i x) (operand_datum a i y)) \<and>
    mode a' = mode a \<and> sort_algos a' = sort_algos a \<and> sort_n a' = sort_n a \<and>
    sort_queue a' = sort_queue a \<and> sort_threads a' = sort_threads a \<and>
    length (sort_data a') = length (sort_data a) \<and>
    (\<forall>t. t < length (sort_data a) \<longrightarrow>
       map value_d (sort_data a' ! t) = map value_d (sort_data a ! t)) \<and>
    (\<forall>t. t < length (sort_data a) \<and> length (sort_threads a) \<le> t \<and> t \<noteq> i \<longrightarrow>
       sort_data a' ! t = sort_data a ! t) \<and>
    (\<forall>t. t < length (sort_data a) \<and> t < length (sort_threads a) \<and> t \<noteq> i \<longrightarrow>
       sort_data a' ! t = draw_row False (sort_n a) (sort_data a ! t))"
proof -
  from call obtain a1 a2 where s1: "set_timer i x a = Some a1"
    and s2: "set_timer i y a1 = Some a2" and dr: "sort_draw_data False a2 = Some a'"
    and b: "b \<longleftrightarrow> value_d (operand_datum a' i x) \<le> value_d (operand_datum a' i y)"
    by (auto simp: sort_cmp_call_def split: option.splits)
  note S1 = set_timer_result [OF s1] and S2 = set_timer_result [OF s2]
    and D = sort_draw_data_result [OF dr]
  have fields: "mode a' = mode a" "sort_algos a' = sort_algos a" "sort_n a' = sort_n a"
    "sort_queue a' = sort_queue a" "sort_threads a' = sort_threads a"
    "length (sort_data a') = length (sort_data a)"
    using S1 S2 D by simp_all
  have v2: "map value_d (sort_data a2 ! t) = map value_d (sort_data a ! t)" for t
  proof (cases "t = i")
    case True
    with S1 S2 show ?thesis by simp
  next
    case False
    with S1 S2 show ?thesis by simp
  qed
  have vals: "map value_d (sort_data a' ! t) = map value_d (sort_data a ! t)"
    if "t < length (sort_data a)" for t
  proof -
    from that S1 S2 have "t < length (sort_data a2)" by simp
    with D have "map value_d (sort_data a' ! t) = map value_d (sort_data a2 ! t)" by simp
    with v2 show ?thesis by simp
  qed
  have other: "sort_data a2 ! t = sort_data a ! t" if "t \<noteq> i" for t
    using that S1 S2 by simp
  have opv: "value_d (operand_datum a' i z) = value_d (operand_datum a i z)"
    if ok: "\<forall>p. z = Elem p \<longrightarrow> i < length (sort_data a) \<and> p < length (sort_data a ! i)" for z
  proof (cases z)
    case (Temp t)
    then show ?thesis by (simp add: operand_datum_def)
  next
    case (Elem p)
    with ok have rng: "i < length (sort_data a)" "p < length (sort_data a ! i)" by simp_all
    from vals [OF rng(1)] have eq: "map value_d (sort_data a' ! i) = map value_d (sort_data a ! i)" .
    then have "length (sort_data a' ! i) = length (sort_data a ! i)" by (metis length_map)
    with rng have p': "p < length (sort_data a' ! i)" by simp
    have "value_d (sort_data a' ! i ! p) = map value_d (sort_data a' ! i) ! p"
      using p' by simp
    also have "\<dots> = map value_d (sort_data a ! i) ! p" by (simp only: eq)
    also have "\<dots> = value_d (sort_data a ! i ! p)" using rng by simp
    finally show ?thesis using Elem by (simp add: operand_datum_def)
  qed
  have okx: "\<forall>p. x = Elem p \<longrightarrow> i < length (sort_data a) \<and> p < length (sort_data a ! i)"
    using S1 by simp
  have oky: "\<forall>p. y = Elem p \<longrightarrow> i < length (sort_data a) \<and> p < length (sort_data a ! i)"
  proof (intro allI impI)
    fix p assume "y = Elem p"
    with S2 have "i < length (sort_data a1) \<and> p < length (sort_data a1 ! i)" by simp
    moreover from S1 have "length (sort_data a1 ! i) = length (sort_data a ! i)"
      by (metis length_map)
    ultimately show "i < length (sort_data a) \<and> p < length (sort_data a ! i)" using S1 by simp
  qed
  from b opv [OF okx] opv [OF oky]
  have ans: "b \<longleftrightarrow> sort_cmp (operand_datum a i x) (operand_datum a i y)"
    by (simp add: sort_cmp_def)
  have keep: "sort_data a' ! t = sort_data a ! t"
    if "t < length (sort_data a) \<and> length (sort_threads a) \<le> t \<and> t \<noteq> i" for t
  proof -
    from that S1 S2 have "t < length (sort_data a2)" and "\<not> t < length (sort_threads a2)"
      by simp_all
    with D have "sort_data a' ! t = sort_data a2 ! t" by simp
    with other that show ?thesis by simp
  qed
  have drawn: "sort_data a' ! t = draw_row False (sort_n a) (sort_data a ! t)"
    if "t < length (sort_data a) \<and> t < length (sort_threads a) \<and> t \<noteq> i" for t
  proof -
    from that S1 S2 have "t < length (sort_data a2)" and "t < length (sort_threads a2)"
      and "sort_n a2 = sort_n a"
      by simp_all
    with D have "sort_data a' ! t = draw_row False (sort_n a) (sort_data a2 ! t)" by simp
    with other that show ?thesis by simp
  qed
  from ans fields vals keep drawn show ?thesis by blast
qed

lemma sort_cmp_call_total:
  assumes shape: "\<forall>t. t < length (sort_threads a) \<longrightarrow>
      t < length (sort_data a) \<and> sort_n a \<le> length (sort_data a ! t) \<and>
      t < length (sort_queue a) \<and> sort_queue a ! t < length (sort_algos a)"
    and i: "i < length (sort_data a)"
    and p: "p < length (sort_data a ! i)" and q: "q < length (sort_data a ! i)"
  shows "\<exists>a' b. sort_cmp_call a i (Elem p) (Elem q) = Some (a', b)"
proof -
  from i p obtain a1 where s1: "set_timer i (Elem p) a = Some a1"
    by (simp add: set_timer_def)
  note S1 = set_timer_result [OF s1]
  from S1 have l1: "length (sort_data a1 ! i) = length (sort_data a ! i)" by (metis length_map)
  with S1 i q obtain a2 where s2: "set_timer i (Elem q) a1 = Some a2"
    by (simp add: set_timer_def)
  note S2 = set_timer_result [OF s2]
  from S2 have l2: "length (sort_data a2 ! i) = length (sort_data a1 ! i)" by (metis length_map)
  have "\<forall>t. t < length (sort_threads a2) \<longrightarrow>
      t < length (sort_data a2) \<and> sort_n a2 \<le> length (sort_data a2 ! t) \<and>
      t < length (sort_queue a2) \<and> sort_queue a2 ! t < length (sort_algos a2)"
  proof (intro allI impI)
    fix t assume "t < length (sort_threads a2)"
    with S1 S2 have t: "t < length (sort_threads a)" by simp
    show "t < length (sort_data a2) \<and> sort_n a2 \<le> length (sort_data a2 ! t) \<and>
      t < length (sort_queue a2) \<and> sort_queue a2 ! t < length (sort_algos a2)"
    proof (cases "t = i")
      case True
      with shape t S1 S2 l1 l2 show ?thesis by simp
    next
      case False
      with shape t S1 S2 show ?thesis by simp
    qed
  qed
  from sort_draw_data_total [OF this] obtain a3 where "sort_draw_data False a2 = Some a3"
    by blast
  with s1 s2 show ?thesis by (simp add: sort_cmp_call_def)
qed


section \<open>The claims about the run session\<close>

lemma shuffle_length:
  assumes "\<And>xs. mset (shuffle xs) = mset xs"
  shows "length (shuffle (base_data n)) = n"
proof -
  have "length (shuffle (base_data n)) = length (base_data n)"
    using assms [of "base_data n"] by (metis size_mset)
  then show ?thesis by (simp add: base_data_def)
qed

lemma config_continue_spec:
  assumes empty: "sort_queue a = []" "sort_threads a = []" "sort_data a = []"
    and pos: "0 < length (filter selected (sort_algos a))"
  shows "config_continue shuffle a =
     a\<lparr>sort_queue := filter (\<lambda>q. selected (sort_algos a ! q)) [0..<length (sort_algos a)],
       sort_threads := replicate (length (filter selected (sort_algos a))) Not_a_thread,
       sort_data := shuffle (base_data (sort_n a)) #
         replicate (length (filter selected (sort_algos a)))
           (fresh_copy (shuffle (base_data (sort_n a))) (sort_n a)),
       mode := SORTING\<rparr>"
  using pos by (simp add: config_continue_def sort_setup_spec [OF empty])

lemma sort_launch_spec:
  assumes "sort_launch tm a = Some a2"
  shows "sort_algos a2 = sort_algos a \<and> sort_n a2 = sort_n a \<and> sort_queue a2 = sort_queue a \<and>
    mode a2 = SORTED \<and>
    length (sort_data a2) = length (sort_data a) \<and>
    length (sort_threads a2) = length (sort_threads a) \<and>
    (\<forall>j. length (sort_queue a) \<le> j \<longrightarrow>
       sort_data a2 ! j = sort_data a ! j \<and> sort_threads a2 ! j = sort_threads a ! j) \<and>
    (\<forall>j. j < length (sort_queue a) \<longrightarrow>
       (\<exists>out n. sort_f (sort_algos a ! (sort_queue a ! j)) sort_cmp (sort_data a ! j) = Some (out, n) \<and>
          sort_data a2 ! j = set_timers (tm j) out) \<and>
       sort_threads a2 ! j = Finished (sort_queue a ! j) j) \<and>
    (\<forall>i. i < length (sort_threads a) \<longrightarrow> sort_n a \<le> length (sort_data a2 ! i))"
proof -
  from assms obtain a1 where rt: "run_threads tm a 0 = Some a1"
    and dr: "sort_draw_data_end a1 = Some a1" and a2: "a2 = a1\<lparr>mode := SORTED\<rparr>"
    by (auto simp: sort_launch_def split: option.splits dest: sort_draw_data_end_spec)
  note R = run_threads_spec [OF rt]
  from sort_draw_data_end_spec [OF dr] R
  have "\<forall>i. i < length (sort_threads a) \<longrightarrow> sort_n a \<le> length (sort_data a1 ! i)"
    by simp
  with R a2 show ?thesis by simp
qed

text \<open>
  The three vectors are empty when \<open>sort_setup\<close> is called: the constructor leaves them
  empty, \<open>sort_setup\<close> is called in the mode \<open>CONFIG\<close> only, and the way back to \<open>CONFIG\<close>
  from a session is \<open>end_session\<close>, which empties them.
\<close>

lemma main_animator_algos:
  "sort_algos (main_animator rnd lib) =
     map (\<lambda>(nm, srt). \<lparr>name = nm, selected = False, sort_f = srt\<rparr>) (registered_sorts rnd lib)"
  by (simp add: main_animator_def registered_sorts_def add_sort_def new_animator_def)

lemma new_animator_empty:
  "sort_queue new_animator = [] \<and> sort_threads new_animator = [] \<and> sort_data new_animator = []"
  by (simp add: new_animator_def)

lemma end_session_empty:
  assumes "sort_data a = [] \<longrightarrow> sort_queue a = [] \<and> sort_threads a = []"
  shows "sort_queue (end_session a) = [] \<and> sort_threads (end_session a) = [] \<and>
    sort_data (end_session a) = [] \<and> mode (end_session a) = CONFIG"
  using assms by (simp add: end_session_def)

lemma session_data_empty:
  assumes empty: "sort_queue a = []" "sort_threads a = []" "sort_data a = []"
    and run: "sort_launch tm (config_continue shuffle a) = Some a2"
  shows "sort_data a2 = [] \<longrightarrow> sort_queue a2 = [] \<and> sort_threads a2 = []"
proof (cases "length (filter selected (sort_algos a)) = 0")
  case True
  then have "config_continue shuffle a = a\<lparr>mode := SORTING\<rparr>"
    by (simp add: config_continue_def sort_setup_spec [OF empty])
  with sort_launch_spec [OF run] empty show ?thesis by simp
next
  case False
  then have "length (sort_data (config_continue shuffle a)) \<noteq> 0"
    by (simp add: config_continue_def sort_setup_spec [OF empty])
  with sort_launch_spec [OF run] show ?thesis by auto
qed

text \<open>
  C6. A session that \<open>sort_setup\<close> makes from an animator whose three vectors are empty
  (as the constructor and \<open>end_session\<close> leave them) with \<open>k\<close> selected algorithms has \<open>k\<close>
  queued indices, \<open>k\<close> thread handles and \<open>k\<close> per-algorithm datasets, the ones at the
  indices \<open>0, ..., k - 1\<close> that the threads are given; \<open>sort_data\<close> itself holds one more
  dataset when \<open>k > 0\<close> and none when \<open>k = 0\<close>. The numbers stay as they are when the
  run completes.
\<close>

theorem run_session_sizes:
  assumes empty: "sort_queue a = []" "sort_threads a = []" "sort_data a = []"
    and k: "k = length (filter selected (sort_algos a))"
  shows "length (sort_queue (sort_setup shuffle a)) = k \<and>
     length (sort_threads (sort_setup shuffle a)) = k \<and>
     length (per_algorithm_copies (sort_setup shuffle a)) = k \<and>
     length (sort_data (sort_setup shuffle a)) = (if k = 0 then 0 else k + 1) \<and>
     (\<forall>tm a2. sort_launch tm (config_continue shuffle a) = Some a2 \<longrightarrow>
        length (sort_queue a2) = k \<and> length (sort_threads a2) = k \<and>
        length (per_algorithm_copies a2) = k)"
proof -
  have q: "length (filter (\<lambda>q. selected (sort_algos a ! q)) [0..<length (sort_algos a)]) = k"
    unfolding k by (rule filter_index_length)
  have sizes: "length (sort_queue (sort_setup shuffle a)) = k \<and>
     length (sort_threads (sort_setup shuffle a)) = k \<and>
     length (per_algorithm_copies (sort_setup shuffle a)) = k \<and>
     length (sort_data (sort_setup shuffle a)) = (if k = 0 then 0 else k + 1)"
    using q empty k by (simp add: sort_setup_spec [OF empty] per_algorithm_copies_def)
  have "length (sort_queue a2) = k \<and> length (sort_threads a2) = k \<and>
        length (per_algorithm_copies a2) = k"
    if run: "sort_launch tm (config_continue shuffle a) = Some a2" for tm a2
  proof -
    from sort_launch_spec [OF run] sizes show ?thesis
      by (simp add: config_continue_def per_algorithm_copies_def)
  qed
  with sizes show ?thesis by blast
qed

theorem run_session_sizes_witness:
  "length (sort_queue (sort_setup rev
      \<lparr>mode = CONFIG,
       sort_algos = [\<lparr>name = ''Selection'', selected = True, sort_f = selection_sort\<rparr>,
                     \<lparr>name = ''Bubble'', selected = False, sort_f = bubble_sort\<rparr>,
                     \<lparr>name = ''Quicksort'', selected = True, sort_f = quick_sort\<rparr>],
       sort_n = 3, sort_data = [], sort_queue = [], sort_threads = []\<rparr>)) = 2 \<and>
   length (sort_threads (sort_setup rev
      \<lparr>mode = CONFIG,
       sort_algos = [\<lparr>name = ''Selection'', selected = True, sort_f = selection_sort\<rparr>,
                     \<lparr>name = ''Bubble'', selected = False, sort_f = bubble_sort\<rparr>,
                     \<lparr>name = ''Quicksort'', selected = True, sort_f = quick_sort\<rparr>],
       sort_n = 3, sort_data = [], sort_queue = [], sort_threads = []\<rparr>)) = 2 \<and>
   length (per_algorithm_copies (sort_setup rev
      \<lparr>mode = CONFIG,
       sort_algos = [\<lparr>name = ''Selection'', selected = True, sort_f = selection_sort\<rparr>,
                     \<lparr>name = ''Bubble'', selected = False, sort_f = bubble_sort\<rparr>,
                     \<lparr>name = ''Quicksort'', selected = True, sort_f = quick_sort\<rparr>],
       sort_n = 3, sort_data = [], sort_queue = [], sort_threads = []\<rparr>)) = 2"
  using run_session_sizes [of
      "\<lparr>mode = CONFIG,
       sort_algos = [\<lparr>name = ''Selection'', selected = True, sort_f = selection_sort\<rparr>,
                     \<lparr>name = ''Bubble'', selected = False, sort_f = bubble_sort\<rparr>,
                     \<lparr>name = ''Quicksort'', selected = True, sort_f = quick_sort\<rparr>],
       sort_n = 3, sort_data = [], sort_queue = [], sort_threads = []\<rparr>" 2 rev]
  by simp


lemma run_datasets_aux:
  assumes perm: "\<And>xs. mset (shuffle xs) = mset xs"
    and empty: "sort_queue a = []" "sort_threads a = []" "sort_data a = []"
    and k: "k = length (filter selected (sort_algos a))" and pos: "0 < k"
    and run: "sort_launch tm (config_continue shuffle a) = Some a2"
  shows "length (sort_data (config_continue shuffle a)) = k + 1 \<and>
     (\<forall>j. j \<le> k \<longrightarrow>
        map value_d (sort_data (config_continue shuffle a) ! j) =
          map value_d (shuffle (base_data (sort_n a)))) \<and>
     mset (map value_d (shuffle (base_data (sort_n a)))) = mset (map int [1..<sort_n a + 1]) \<and>
     length (sort_data a2) = k + 1 \<and> length (sort_threads a2) = k \<and>
     (\<forall>i. i < k \<longrightarrow>
        sort_threads a2 ! i = Finished (sort_queue a2 ! i) i \<and>
        (\<exists>out n. sort_f (sort_algos a ! (sort_queue a2 ! i)) sort_cmp
                    (sort_data (config_continue shuffle a) ! i) = Some (out, n) \<and>
           sort_data a2 ! i = set_timers (tm i) out)) \<and>
     sort_data a2 ! k = sort_data (config_continue shuffle a) ! k \<and>
     map value_d (sort_data a2 ! k) = map value_d (shuffle (base_data (sort_n a)))"
proof -
  let ?a1 = "config_continue shuffle a"
  let ?d0 = "shuffle (base_data (sort_n a))"
  from pos k have pos': "0 < length (filter selected (sort_algos a))" by simp
  note cc = config_continue_spec [OF empty pos', of shuffle]
  have q: "length (sort_queue ?a1) = k"
    unfolding cc k by (simp add: filter_index_length)
  have thr: "length (sort_threads ?a1) = k" unfolding cc k by simp
  have data: "sort_data ?a1 = ?d0 # replicate k (fresh_copy ?d0 (sort_n a))"
    unfolding cc k by simp
  have algos: "sort_algos ?a1 = sort_algos a" unfolding cc by simp
  have len1: "length (sort_data ?a1) = k + 1" unfolding data by simp
  have vals: "map value_d (sort_data ?a1 ! j) = map value_d ?d0" if "j \<le> k" for j
  proof (cases j)
    case 0
    then show ?thesis unfolding data by simp
  next
    case (Suc j')
    with that have "sort_data ?a1 ! j = fresh_copy ?d0 (sort_n a)" unfolding data by simp
    then show ?thesis
      using fresh_copy_values [OF shuffle_length [OF perm, of "sort_n a"]] by simp
  qed
  have "mset (map value_d ?d0) = mset (map value_d (base_data (sort_n a)))"
    using perm [of "base_data (sort_n a)"] by (metis mset_map)
  then have base: "mset (map value_d ?d0) = mset (map int [1..<sort_n a + 1])"
    by (simp only: base_data_values)
  note L = sort_launch_spec [OF run]
  from L q have q2: "sort_queue a2 = sort_queue ?a1" by simp
  from L len1 have len2: "length (sort_data a2) = k + 1" by simp
  from L thr have thr2: "length (sort_threads a2) = k" by simp
  have each: "sort_threads a2 ! i = Finished (sort_queue a2 ! i) i \<and>
        (\<exists>out n. sort_f (sort_algos a ! (sort_queue a2 ! i)) sort_cmp (sort_data ?a1 ! i) = Some (out, n) \<and>
           sort_data a2 ! i = set_timers (tm i) out)"
    if "i < k" for i
    using L that q algos q2 by auto
  from L q have last: "sort_data a2 ! k = sort_data ?a1 ! k" by simp
  with vals [of k] have lastv: "map value_d (sort_data a2 ! k) = map value_d ?d0" by simp
  from len1 vals base len2 thr2 each last lastv show ?thesis by blast
qed

lemma config_continue_none:
  assumes empty: "sort_queue a = []" "sort_threads a = []" "sort_data a = []"
    and none: "length (filter selected (sort_algos a)) = 0"
  shows "config_continue shuffle a = a\<lparr>mode := SORTING\<rparr> \<and>
    sort_launch tm (config_continue shuffle a) = Some (a\<lparr>mode := SORTED\<rparr>)"
proof -
  from none have cc: "config_continue shuffle a = a\<lparr>mode := SORTING\<rparr>"
    by (simp add: config_continue_def sort_setup_spec [OF empty])
  have "run_threads tm (a\<lparr>mode := SORTING\<rparr>) 0 = Some (a\<lparr>mode := SORTING\<rparr>)"
    using empty by (simp add: run_threads.simps [of tm "a\<lparr>mode := SORTING\<rparr>" 0])
  moreover have "sort_draw_data_end (a\<lparr>mode := SORTING\<rparr>) = Some (a\<lparr>mode := SORTING\<rparr>)"
    using empty by (simp add: sort_draw_data_end_def)
  ultimately show ?thesis unfolding cc by (simp add: sort_launch_def)
qed

lemma config_continue_shape:
  assumes perm: "\<And>xs. mset (shuffle xs) = mset xs"
    and empty: "sort_queue a = []" "sort_threads a = []" "sort_data a = []"
    and pos: "0 < length (filter selected (sort_algos a))"
  shows "sort_n (config_continue shuffle a) = sort_n a \<and>
    length (sort_threads (config_continue shuffle a)) = length (filter selected (sort_algos a)) \<and>
    length (sort_data (config_continue shuffle a)) = length (filter selected (sort_algos a)) + 1 \<and>
    (\<forall>t. t \<le> length (filter selected (sort_algos a)) \<longrightarrow>
       length (sort_data (config_continue shuffle a) ! t) = sort_n a) \<and>
    (\<forall>t. t < length (filter selected (sort_algos a)) \<longrightarrow>
       t < length (sort_queue (config_continue shuffle a)) \<and>
       sort_queue (config_continue shuffle a) ! t < length (sort_algos (config_continue shuffle a)))"
proof -
  let ?k = "length (filter selected (sort_algos a))"
  let ?q = "filter (\<lambda>q. selected (sort_algos a ! q)) [0..<length (sort_algos a)]"
  let ?d0 = "shuffle (base_data (sort_n a))"
  note cc = config_continue_spec [OF empty pos, of shuffle]
  have lq: "length ?q = ?k" by (rule filter_index_length)
  have l0: "length ?d0 = sort_n a" by (rule shuffle_length [OF perm])
  have rows: "length (sort_data (config_continue shuffle a) ! t) = sort_n a" if "t \<le> ?k" for t
  proof (cases t)
    case 0
    then show ?thesis unfolding cc using l0 by simp
  next
    case (Suc t')
    with that show ?thesis unfolding cc by (simp add: fresh_copy_def)
  qed
  have qs: "t < length (sort_queue (config_continue shuffle a)) \<and>
       sort_queue (config_continue shuffle a) ! t < length (sort_algos (config_continue shuffle a))"
    if "t < ?k" for t
  proof -
    from that lq have t: "t < length ?q" by simp
    then have "?q ! t \<in> set ?q" by (rule nth_mem)
    then have "?q ! t < length (sort_algos a)" by simp
    with t show ?thesis unfolding cc by simp
  qed
  from rows qs show ?thesis unfolding cc by simp
qed

text \<open>
  C9 (as the code has it). Let \<open>k\<close> be the number of selected algorithms of an animator
  whose three vectors are empty, and let the shuffle permute. With \<open>k = 0\<close>, \<open>sort_setup\<close>
  makes no dataset and the run completes with \<open>sort_data\<close> empty. With \<open>k \<ge> 1\<close>,
  \<open>sort_setup\<close> makes \<open>k + 1\<close> datasets, at the indices \<open>0, ..., k\<close>, whose values are all the
  same shuffled permutation of \<open>1, ..., N\<close>, and \<open>k\<close> thread handles; a comparator call on
  two elements of a dataset \<open>i < k\<close> returns; and when the run has completed, thread \<open>i\<close>
  has run algorithm \<open>sort_queue[i]\<close> on dataset \<open>i\<close>, dataset \<open>i < k\<close> is what that algorithm
  returned on the dataset of the setup (with the timers the run left), and the dataset at
  index \<open>k\<close> is the one of the setup, untouched: its values are the shuffled base
  permutation. In every state with \<open>k\<close> thread handles, a comparator call of thread \<open>i\<close>
  answers as \<open>sort_cmp\<close>, changes no value of any dataset, leaves the dataset at index \<open>k\<close>
  as it is, and counts down the timers of every other dataset \<open>t < k\<close>: the values of
  dataset \<open>i\<close> are written by thread \<open>i\<close> alone, the timers of the datasets
  \<open>0, ..., k - 1\<close> by all the threads.
\<close>

theorem run_datasets:
  assumes perm: "\<And>xs. mset (shuffle xs) = mset xs"
    and empty: "sort_queue a = []" "sort_threads a = []" "sort_data a = []"
    and k: "k = length (filter selected (sort_algos a))"
  shows "(k = 0 \<longrightarrow>
       sort_data (config_continue shuffle a) = [] \<and>
       (\<exists>a2. sort_launch tm (config_continue shuffle a) = Some a2 \<and> sort_data a2 = [])) \<and>
     (0 < k \<longrightarrow>
       length (sort_data (config_continue shuffle a)) = k + 1 \<and>
       length (sort_threads (config_continue shuffle a)) = k \<and>
       (\<forall>j. j \<le> k \<longrightarrow>
          map value_d (sort_data (config_continue shuffle a) ! j) =
            map value_d (shuffle (base_data (sort_n a)))) \<and>
       mset (map value_d (shuffle (base_data (sort_n a)))) = mset (map int [1..<sort_n a + 1]) \<and>
       (\<forall>i p q. i < k \<and> p < sort_n a \<and> q < sort_n a \<longrightarrow>
          (\<exists>s' b. sort_cmp_call (config_continue shuffle a) i (Elem p) (Elem q) = Some (s', b))) \<and>
       (\<forall>a2. sort_launch tm (config_continue shuffle a) = Some a2 \<longrightarrow>
          length (sort_data a2) = k + 1 \<and> length (sort_threads a2) = k \<and>
          (\<forall>i. i < k \<longrightarrow>
             sort_threads a2 ! i = Finished (sort_queue a2 ! i) i \<and>
             (\<exists>out n. sort_f (sort_algos a ! (sort_queue a2 ! i)) sort_cmp
                         (sort_data (config_continue shuffle a) ! i) = Some (out, n) \<and>
                sort_data a2 ! i = set_timers (tm i) out)) \<and>
          sort_data a2 ! k = sort_data (config_continue shuffle a) ! k \<and>
          map value_d (sort_data a2 ! k) = map value_d (shuffle (base_data (sort_n a))))) \<and>
     (\<forall>s i x y s' b.
        length (sort_threads s) = k \<and> k < length (sort_data s) \<and> i < k \<and>
        sort_cmp_call s i x y = Some (s', b) \<longrightarrow>
          (b \<longleftrightarrow> sort_cmp (operand_datum s i x) (operand_datum s i y)) \<and>
          length (sort_threads s') = k \<and> length (sort_data s') = length (sort_data s) \<and>
          (\<forall>t. t < length (sort_data s) \<longrightarrow>
             map value_d (sort_data s' ! t) = map value_d (sort_data s ! t)) \<and>
          sort_data s' ! k = sort_data s ! k \<and>
          (\<forall>t. t < k \<and> t \<noteq> i \<longrightarrow>
             sort_data s' ! t = draw_row False (sort_n s) (sort_data s ! t)))"
proof (intro conjI impI)
  assume "k = 0"
  with k have none: "length (filter selected (sort_algos a)) = 0" by simp
  note N = config_continue_none [OF empty none, of shuffle tm]
  from N empty show "sort_data (config_continue shuffle a) = []" by simp
  from N have "sort_launch tm (config_continue shuffle a) = Some (a\<lparr>mode := SORTED\<rparr>)" ..
  moreover have "sort_data (a\<lparr>mode := SORTED\<rparr>) = []" using empty by simp
  ultimately
  show "\<exists>a2. sort_launch tm (config_continue shuffle a) = Some a2 \<and> sort_data a2 = []"
    by blast
next
  assume pos: "0 < k"
  let ?a1 = "config_continue shuffle a"
  let ?d0 = "shuffle (base_data (sort_n a))"
  from pos k have pos': "0 < length (filter selected (sort_algos a))" by simp
  note cc = config_continue_spec [OF empty pos', of shuffle]
  note sh = config_continue_shape [OF perm empty pos', folded k]
  show len1: "length (sort_data ?a1) = k + 1" using sh by simp
  show "length (sort_threads ?a1) = k" using sh by simp
  have data: "sort_data ?a1 = ?d0 # replicate k (fresh_copy ?d0 (sort_n a))"
    unfolding cc k by simp
  have vals: "map value_d (sort_data ?a1 ! j) = map value_d ?d0" if "j \<le> k" for j
  proof (cases j)
    case 0
    then show ?thesis unfolding data by simp
  next
    case (Suc j')
    with that have "sort_data ?a1 ! j = fresh_copy ?d0 (sort_n a)" unfolding data by simp
    then show ?thesis
      using fresh_copy_values [OF shuffle_length [OF perm, of "sort_n a"]] by simp
  qed
  then show "\<forall>j. j \<le> k \<longrightarrow> map value_d (sort_data ?a1 ! j) = map value_d ?d0" by blast
  have "mset (map value_d ?d0) = mset (map value_d (base_data (sort_n a)))"
    using perm [of "base_data (sort_n a)"] by (metis mset_map)
  then show "mset (map value_d ?d0) = mset (map int [1..<sort_n a + 1])"
    by (simp only: base_data_values)
  show "\<forall>i p q. i < k \<and> p < sort_n a \<and> q < sort_n a \<longrightarrow>
      (\<exists>s' b. sort_cmp_call ?a1 i (Elem p) (Elem q) = Some (s', b))"
  proof (intro allI impI)
    fix i p q assume ipq: "i < k \<and> p < sort_n a \<and> q < sort_n a"
    have shape: "\<forall>t. t < length (sort_threads ?a1) \<longrightarrow>
        t < length (sort_data ?a1) \<and> sort_n ?a1 \<le> length (sort_data ?a1 ! t) \<and>
        t < length (sort_queue ?a1) \<and> sort_queue ?a1 ! t < length (sort_algos ?a1)"
      using sh by simp
    from sh ipq have "i < length (sort_data ?a1)" "p < length (sort_data ?a1 ! i)"
      "q < length (sort_data ?a1 ! i)"
      by simp_all
    from sort_cmp_call_total [OF shape this]
    show "\<exists>s' b. sort_cmp_call ?a1 i (Elem p) (Elem q) = Some (s', b)" .
  qed
  show "\<forall>a2. sort_launch tm ?a1 = Some a2 \<longrightarrow>
      length (sort_data a2) = k + 1 \<and> length (sort_threads a2) = k \<and>
      (\<forall>i. i < k \<longrightarrow>
         sort_threads a2 ! i = Finished (sort_queue a2 ! i) i \<and>
         (\<exists>out n. sort_f (sort_algos a ! (sort_queue a2 ! i)) sort_cmp (sort_data ?a1 ! i) =
             Some (out, n) \<and>
            sort_data a2 ! i = set_timers (tm i) out)) \<and>
      sort_data a2 ! k = sort_data ?a1 ! k \<and>
      map value_d (sort_data a2 ! k) = map value_d ?d0"
  proof (intro allI impI)
    fix a2 assume run: "sort_launch tm ?a1 = Some a2"
    from run_datasets_aux [OF perm empty k pos run]
    show "length (sort_data a2) = k + 1 \<and> length (sort_threads a2) = k \<and>
      (\<forall>i. i < k \<longrightarrow>
         sort_threads a2 ! i = Finished (sort_queue a2 ! i) i \<and>
         (\<exists>out n. sort_f (sort_algos a ! (sort_queue a2 ! i)) sort_cmp (sort_data ?a1 ! i) =
             Some (out, n) \<and>
            sort_data a2 ! i = set_timers (tm i) out)) \<and>
      sort_data a2 ! k = sort_data ?a1 ! k \<and>
      map value_d (sort_data a2 ! k) = map value_d ?d0"
      by blast
  qed
next
  show "\<forall>s i x y s' b.
        length (sort_threads s) = k \<and> k < length (sort_data s) \<and> i < k \<and>
        sort_cmp_call s i x y = Some (s', b) \<longrightarrow>
          (b \<longleftrightarrow> sort_cmp (operand_datum s i x) (operand_datum s i y)) \<and>
          length (sort_threads s') = k \<and> length (sort_data s') = length (sort_data s) \<and>
          (\<forall>t. t < length (sort_data s) \<longrightarrow>
             map value_d (sort_data s' ! t) = map value_d (sort_data s ! t)) \<and>
          sort_data s' ! k = sort_data s ! k \<and>
          (\<forall>t. t < k \<and> t \<noteq> i \<longrightarrow>
             sort_data s' ! t = draw_row False (sort_n s) (sort_data s ! t))"
  proof (intro allI impI)
    fix s i x y s' b
    assume h: "length (sort_threads s) = k \<and> k < length (sort_data s) \<and> i < k \<and>
        sort_cmp_call s i x y = Some (s', b)"
    then have call: "sort_cmp_call s i x y = Some (s', b)" by simp
    note R = sort_cmp_call_result [OF call]
    from R have ans: "b \<longleftrightarrow> sort_cmp (operand_datum s i x) (operand_datum s i y)" by simp
    from R h have lens: "length (sort_threads s') = k"
      "length (sort_data s') = length (sort_data s)" by simp_all
    from R have vals: "\<forall>t. t < length (sort_data s) \<longrightarrow>
        map value_d (sort_data s' ! t) = map value_d (sort_data s ! t)" by blast
    from h have "k < length (sort_data s) \<and> length (sort_threads s) \<le> k \<and> k \<noteq> i" by simp
    with R have spare: "sort_data s' ! k = sort_data s ! k" by blast
    have others: "\<forall>t. t < k \<and> t \<noteq> i \<longrightarrow>
        sort_data s' ! t = draw_row False (sort_n s) (sort_data s ! t)"
    proof (intro allI impI)
      fix t assume "t < k \<and> t \<noteq> i"
      with h have "t < length (sort_data s) \<and> t < length (sort_threads s) \<and> t \<noteq> i" by simp
      with R show "sort_data s' ! t = draw_row False (sort_n s) (sort_data s ! t)" by blast
    qed
    from ans lens vals spare others
    show "(b \<longleftrightarrow> sort_cmp (operand_datum s i x) (operand_datum s i y)) \<and>
          length (sort_threads s') = k \<and> length (sort_data s') = length (sort_data s) \<and>
          (\<forall>t. t < length (sort_data s) \<longrightarrow>
             map value_d (sort_data s' ! t) = map value_d (sort_data s ! t)) \<and>
          sort_data s' ! k = sort_data s ! k \<and>
          (\<forall>t. t < k \<and> t \<noteq> i \<longrightarrow>
             sort_data s' ! t = draw_row False (sort_n s) (sort_data s ! t))"
      by blast
  qed
qed

theorem run_datasets_witness:
  "length (sort_data (config_continue rev
      \<lparr>mode = CONFIG,
       sort_algos = [\<lparr>name = ''Selection'', selected = True, sort_f = selection_sort\<rparr>,
                     \<lparr>name = ''Bubble'', selected = False, sort_f = bubble_sort\<rparr>,
                     \<lparr>name = ''Quicksort'', selected = True, sort_f = quick_sort\<rparr>],
       sort_n = 3, sort_data = [], sort_queue = [], sort_threads = []\<rparr>)) = 2 + 1 \<and>
   (\<exists>a2. sort_launch (\<lambda>i j. 0) (config_continue rev
      \<lparr>mode = CONFIG,
       sort_algos = [\<lparr>name = ''Selection'', selected = True, sort_f = selection_sort\<rparr>,
                     \<lparr>name = ''Bubble'', selected = False, sort_f = bubble_sort\<rparr>,
                     \<lparr>name = ''Quicksort'', selected = True, sort_f = quick_sort\<rparr>],
       sort_n = 3, sort_data = [], sort_queue = [], sort_threads = []\<rparr>) = Some a2 \<and>
     length (sort_data a2) = 2 + 1 \<and>
     map value_d (sort_data a2 ! 2) = map value_d (rev (base_data 3))) \<and>
   (\<exists>s' b. sort_cmp_call (config_continue rev
      \<lparr>mode = CONFIG,
       sort_algos = [\<lparr>name = ''Selection'', selected = True, sort_f = selection_sort\<rparr>,
                     \<lparr>name = ''Bubble'', selected = False, sort_f = bubble_sort\<rparr>,
                     \<lparr>name = ''Quicksort'', selected = True, sort_f = quick_sort\<rparr>],
       sort_n = 3, sort_data = [], sort_queue = [], sort_threads = []\<rparr>) 0 (Elem 1) (Elem 0) =
       Some (s', b) \<and>
     sort_data s' ! 2 = sort_data (config_continue rev
      \<lparr>mode = CONFIG,
       sort_algos = [\<lparr>name = ''Selection'', selected = True, sort_f = selection_sort\<rparr>,
                     \<lparr>name = ''Bubble'', selected = False, sort_f = bubble_sort\<rparr>,
                     \<lparr>name = ''Quicksort'', selected = True, sort_f = quick_sort\<rparr>],
       sort_n = 3, sort_data = [], sort_queue = [], sort_threads = []\<rparr>) ! 2)"
proof -
  let ?a = "\<lparr>mode = CONFIG,
       sort_algos = [\<lparr>name = ''Selection'', selected = True, sort_f = selection_sort\<rparr>,
                     \<lparr>name = ''Bubble'', selected = False, sort_f = bubble_sort\<rparr>,
                     \<lparr>name = ''Quicksort'', selected = True, sort_f = quick_sort\<rparr>],
       sort_n = 3, sort_data = [], sort_queue = [], sort_threads = []\<rparr>"
  let ?a1 = "config_continue rev ?a"
  have perm: "\<And>xs :: SortingDatum list. mset (rev xs) = mset xs" by simp
  have e: "sort_queue ?a = []" "sort_threads ?a = []" "sort_data ?a = []" by simp_all
  have kk: "2 = length (filter selected (sort_algos ?a))" by simp
  note T = run_datasets [where shuffle = rev and a = ?a and k = 2 and tm = "\<lambda>i j. 0",
      OF perm e kk]
  have pos: "0 < (2::nat)" by simp
  note P = T [THEN conjunct2, THEN conjunct1, THEN mp, OF pos]
  note Q = T [THEN conjunct2, THEN conjunct2]
  note len = P [THEN conjunct1]
  note thr = P [THEN conjunct2, THEN conjunct1]
  note tot = P [THEN conjunct2, THEN conjunct2, THEN conjunct2, THEN conjunct2, THEN conjunct1]
  note fin = P [THEN conjunct2, THEN conjunct2, THEN conjunct2, THEN conjunct2, THEN conjunct2]
  have "sort_launch (\<lambda>i j. 0) ?a1 \<noteq> None" by code_simp
  then obtain a2 where run: "sort_launch (\<lambda>i j. 0) ?a1 = Some a2" by blast
  note F = fin [rule_format, OF run]
  from F have r1: "length (sort_data a2) = 2 + 1" by (rule conjunct1)
  note F [THEN conjunct2, THEN conjunct2, THEN conjunct2, THEN conjunct2]
  then have r2: "map value_d (sort_data a2 ! 2) = map value_d (rev (base_data 3))" by simp
  have "(0::nat) < 2 \<and> (1::nat) < sort_n ?a \<and> (0::nat) < sort_n ?a" by simp
  from tot [rule_format, OF this]
  obtain s' b where call: "sort_cmp_call ?a1 0 (Elem 1) (Elem 0) = Some (s', b)" by blast
  from len have "2 < length (sort_data ?a1)" by simp
  with thr call have "length (sort_threads ?a1) = 2 \<and> 2 < length (sort_data ?a1) \<and> (0::nat) < 2 \<and>
      sort_cmp_call ?a1 0 (Elem 1) (Elem 0) = Some (s', b)"
    by simp
  from Q [rule_format, OF this] have "sort_data s' ! 2 = sort_data ?a1 ! 2" by simp
  with len run r1 r2 call show ?thesis by blast
qed

text \<open>
  The claim C9 as stated fails twice. For \<open>k = 0\<close> it promises \<open>k + 1\<close> datasets, one of
  them at index \<open>k\<close>: with no algorithm selected \<open>sort_setup\<close> returns before it makes a
  dataset, and the run completes with \<open>sort_data\<close> empty. And the datasets \<open>0, ..., k - 1\<close>
  are not mutated each by one thread: with Selection and Quicksort selected and \<open>N = 3\<close>,
  the first comparator call of thread 1 (quick sort's \<open>cmp(v[0], vp)\<close>, \<open>vp\<close> a copy of
  \<open>v[1]\<close>) leaves the timers \<open>0,0,0\<close>, \<open>4,0,0\<close> and \<open>0,0,0\<close> in the three datasets, and the
  first comparator call of thread 0 after it (selection sort's \<open>cmp(v[1], v[0])\<close>) leaves
  \<open>4,4,0\<close>, \<open>3,0,0\<close> and \<open>0,0,0\<close>: thread 0 has written dataset 1.
\<close>

theorem run_datasets_counterexample:
  "sort_data (config_continue rev
      \<lparr>mode = CONFIG,
       sort_algos = [\<lparr>name = ''Selection'', selected = False, sort_f = selection_sort\<rparr>,
                     \<lparr>name = ''Bubble'', selected = False, sort_f = bubble_sort\<rparr>],
       sort_n = 3, sort_data = [], sort_queue = [], sort_threads = []\<rparr>) = [] \<and>
   map_option sort_data (sort_launch (\<lambda>i j. 0) (config_continue rev
      \<lparr>mode = CONFIG,
       sort_algos = [\<lparr>name = ''Selection'', selected = False, sort_f = selection_sort\<rparr>,
                     \<lparr>name = ''Bubble'', selected = False, sort_f = bubble_sort\<rparr>],
       sort_n = 3, sort_data = [], sort_queue = [], sort_threads = []\<rparr>)) = Some [] \<and>
   map_option (\<lambda>(s, b). map (map timer) (sort_data s))
     (sort_cmp_call (config_continue rev
        \<lparr>mode = CONFIG,
         sort_algos = [\<lparr>name = ''Selection'', selected = True, sort_f = selection_sort\<rparr>,
                       \<lparr>name = ''Bubble'', selected = False, sort_f = bubble_sort\<rparr>,
                       \<lparr>name = ''Quicksort'', selected = True, sort_f = quick_sort\<rparr>],
         sort_n = 3, sort_data = [], sort_queue = [], sort_threads = []\<rparr>)
        1 (Elem 0) (Temp (SortingDatum_of 2))) =
     Some [[0, 0, 0], [4, 0, 0], [0, 0, 0]] \<and>
   Option.bind
     (sort_cmp_call (config_continue rev
        \<lparr>mode = CONFIG,
         sort_algos = [\<lparr>name = ''Selection'', selected = True, sort_f = selection_sort\<rparr>,
                       \<lparr>name = ''Bubble'', selected = False, sort_f = bubble_sort\<rparr>,
                       \<lparr>name = ''Quicksort'', selected = True, sort_f = quick_sort\<rparr>],
         sort_n = 3, sort_data = [], sort_queue = [], sort_threads = []\<rparr>)
        1 (Elem 0) (Temp (SortingDatum_of 2)))
     (\<lambda>(s, b). map_option (\<lambda>(s', b'). map (map timer) (sort_data s'))
        (sort_cmp_call s 0 (Elem 1) (Elem 0))) =
     Some [[4, 4, 0], [3, 0, 0], [0, 0, 0]]"
  by code_simp

text \<open>
  C5 (as the code has it). After a completed run, the key \<open>R\<close> in the sorted state sets the
  first \<open>sort_n\<close> values of every per-algorithm dataset (the datasets \<open>0, ..., k - 1\<close>) to the
  values of the dataset at index \<open>k = sort_queue.size()\<close>, which no sort has touched: the
  shuffled base permutation the run started from. Timers, the dataset at index \<open>k\<close> and the
  number of datasets stay as they are, and the mode becomes \<open>SORTING\<close>.
\<close>

theorem restart_restores_base:
  assumes perm: "\<And>xs. mset (shuffle xs) = mset xs"
    and empty: "sort_queue a = []" "sort_threads a = []" "sort_data a = []"
    and run: "sort_launch tm (config_continue shuffle a) = Some a2"
  shows "\<exists>a3. handle_key_sorted Key_R a2 = Some a3 \<and> mode a3 = SORTING \<and>
     length (sort_data a3) = length (sort_data a2) \<and>
     (\<forall>i. i < length (sort_queue a2) \<longrightarrow>
        map value_d (take (sort_n a2) (sort_data a3 ! i)) =
          map value_d (sort_data a2 ! length (sort_queue a2)) \<and>
        map value_d (take (sort_n a2) (sort_data a3 ! i)) =
          map value_d (shuffle (base_data (sort_n a))) \<and>
        map timer (sort_data a3 ! i) = map timer (sort_data a2 ! i) \<and>
        drop (sort_n a2) (sort_data a3 ! i) = drop (sort_n a2) (sort_data a2 ! i)) \<and>
     (\<forall>i. length (sort_queue a2) \<le> i \<and> i < length (sort_data a2) \<longrightarrow>
        sort_data a3 ! i = sort_data a2 ! i)"
proof (cases "length (filter selected (sort_algos a)) = 0")
  case True
  then have "sort_setup shuffle a = a\<lparr>mode := SORTED\<rparr>"
    by (simp add: sort_setup_spec [OF empty])
  then have cc: "config_continue shuffle a = a\<lparr>mode := SORTING\<rparr>"
    by (simp add: config_continue_def)
  from sort_launch_spec [OF run] have "sort_queue a2 = []"
    unfolding cc using empty by simp
  then show ?thesis
    by (simp add: handle_key_sorted_def restart_outer.simps)
next
  case False
  define k where "k = length (filter selected (sort_algos a))"
  with False have pos: "0 < k" by simp
  note D = run_datasets_aux [OF perm empty k_def pos run]
  note L = sort_launch_spec [OF run]
  let ?a1 = "config_continue shuffle a"
  let ?d0 = "shuffle (base_data (sort_n a))"
  from pos k_def have pos': "0 < length (filter selected (sort_algos a))" by simp
  note cc = config_continue_spec [OF empty pos', of shuffle]
  have q: "length (sort_queue a2) = k"
    using L unfolding cc k_def by (simp add: filter_index_length)
  have n: "sort_n a2 = sort_n a" using L unfolding cc by simp
  have thr: "length (sort_threads ?a1) = k" unfolding cc k_def by simp
  have lenk: "length (sort_data a2 ! k) = sort_n a"
  proof -
    from D have "map value_d (sort_data a2 ! k) = map value_d ?d0" by blast
    then have "length (sort_data a2 ! k) = length ?d0" by (metis length_map)
    then show ?thesis by (simp add: shuffle_length [OF perm])
  qed
  have lens: "\<forall>t. t \<le> k \<longrightarrow> sort_n a \<le> length (sort_data a2 ! t)"
  proof (intro allI impI)
    fix t assume "t \<le> k"
    show "sort_n a \<le> length (sort_data a2 ! t)"
    proof (cases "t = k")
      case True with lenk show ?thesis by simp
    next
      case False
      with \<open>t \<le> k\<close> thr have "t < length (sort_threads ?a1)" by simp
      with L have "sort_n ?a1 \<le> length (sort_data a2 ! t)" by blast
      then show ?thesis unfolding cc by simp
    qed
  qed
  from D have klen: "k < length (sort_data a2)" by simp
  from restart_outer_spec [OF klen lens, of 0]
  obtain d' where ro: "restart_outer (sort_data a2) k (sort_n a) 0 = Some d'"
    and len: "length d' = length (sort_data a2)"
    and each: "\<forall>t. t < length (sort_data a2) \<longrightarrow>
        d' ! t = (if 0 \<le> t \<and> t < k then restored (sort_data a2 ! k) (sort_data a2 ! t) (sort_n a)
                  else sort_data a2 ! t)"
    by blast
  let ?a3 = "a2\<lparr>sort_data := d', mode := SORTING\<rparr>"
  have h: "handle_key_sorted Key_R a2 = Some ?a3"
    using ro q n by (simp add: handle_key_sorted_def)
  have copies: "map value_d (take (sort_n a2) (d' ! i)) = map value_d (sort_data a2 ! k) \<and>
        map value_d (take (sort_n a2) (d' ! i)) = map value_d ?d0 \<and>
        map timer (d' ! i) = map timer (sort_data a2 ! i) \<and>
        drop (sort_n a2) (d' ! i) = drop (sort_n a2) (sort_data a2 ! i)"
    if "i < k" for i
  proof -
    from that klen each have di: "d' ! i = restored (sort_data a2 ! k) (sort_data a2 ! i) (sort_n a)"
      by simp
    from that lens have li: "sort_n a \<le> length (sort_data a2 ! i)" by simp
    have "map value_d (take (sort_n a) (d' ! i)) = map value_d (take (sort_n a) (sort_data a2 ! k))"
      unfolding di using li lenk by (intro restored_values) simp_all
    also have "take (sort_n a) (sort_data a2 ! k) = sort_data a2 ! k" using lenk by simp
    finally have vk: "map value_d (take (sort_n a) (d' ! i)) = map value_d (sort_data a2 ! k)" .
    also from D have "map value_d (sort_data a2 ! k) = map value_d ?d0" by blast
    finally have v: "map value_d (take (sort_n a) (d' ! i)) = map value_d ?d0" .
    have t: "map timer (d' ! i) = map timer (sort_data a2 ! i)"
      unfolding di using li by (rule restored_timers)
    have r: "drop (sort_n a) (d' ! i) = drop (sort_n a) (sort_data a2 ! i)"
      unfolding di by (simp add: restored_def)
    from vk v t r show ?thesis unfolding n by simp
  qed
  have rest: "d' ! i = sort_data a2 ! i" if "k \<le> i" and "i < length (sort_data a2)" for i
    using each that by simp
  have m3: "mode ?a3 = SORTING" and d3: "sort_data ?a3 = d'" by simp_all
  have c1: "\<forall>i. i < length (sort_queue a2) \<longrightarrow>
        map value_d (take (sort_n a2) (d' ! i)) =
          map value_d (sort_data a2 ! length (sort_queue a2)) \<and>
        map value_d (take (sort_n a2) (d' ! i)) = map value_d ?d0 \<and>
        map timer (d' ! i) = map timer (sort_data a2 ! i) \<and>
        drop (sort_n a2) (d' ! i) = drop (sort_n a2) (sort_data a2 ! i)"
    unfolding q using copies by blast
  have c2: "\<forall>i. length (sort_queue a2) \<le> i \<and> i < length (sort_data a2) \<longrightarrow>
        d' ! i = sort_data a2 ! i"
    unfolding q using rest by blast
  from c1 c2 len show ?thesis
    by (intro exI [of _ ?a3] conjI) (simp_all only: h m3 d3 simp_thms)
qed

theorem restart_restores_base_witness:
  "\<exists>a2 a3. sort_launch (\<lambda>i j. 0) (config_continue rev
      \<lparr>mode = CONFIG,
       sort_algos = [\<lparr>name = ''Selection'', selected = True, sort_f = selection_sort\<rparr>,
                     \<lparr>name = ''Bubble'', selected = False, sort_f = bubble_sort\<rparr>,
                     \<lparr>name = ''Quicksort'', selected = True, sort_f = quick_sort\<rparr>],
       sort_n = 3, sort_data = [], sort_queue = [], sort_threads = []\<rparr>) = Some a2 \<and>
     handle_key_sorted Key_R a2 = Some a3 \<and> mode a3 = SORTING \<and>
     length (sort_data a3) = length (sort_data a2)"
proof -
  let ?a = "\<lparr>mode = CONFIG,
       sort_algos = [\<lparr>name = ''Selection'', selected = True, sort_f = selection_sort\<rparr>,
                     \<lparr>name = ''Bubble'', selected = False, sort_f = bubble_sort\<rparr>,
                     \<lparr>name = ''Quicksort'', selected = True, sort_f = quick_sort\<rparr>],
       sort_n = 3, sort_data = [], sort_queue = [], sort_threads = []\<rparr>"
  have "sort_launch (\<lambda>i j. 0) (config_continue rev ?a) \<noteq> None" by code_simp
  then obtain a2 where run: "sort_launch (\<lambda>i j. 0) (config_continue rev ?a) = Some a2"
    by blast
  have perm: "\<And>xs :: SortingDatum list. mset (rev xs) = mset xs" by simp
  from restart_restores_base [OF perm _ _ _ run] run show ?thesis by auto
qed

text \<open>
  The claim C5 as stated (the copies get the first copy's values after the sort) fails in
  the run of selection sort and quick sort on three data shuffled to \<open>3, 2, 1\<close>: when the
  run has completed the datasets hold \<open>[1,2,3], [1,2,3], [3,2,1]\<close>, and after the key \<open>R\<close>
  they hold \<open>[3,2,1], [3,2,1], [3,2,1]\<close>, not the first copy's \<open>[1,2,3]\<close>.
\<close>

theorem restart_counterexample:
  "map_option (\<lambda>a2. map (map value_d) (sort_data a2))
     (sort_launch (\<lambda>i j. 0) (config_continue rev
      \<lparr>mode = CONFIG,
       sort_algos = [\<lparr>name = ''Selection'', selected = True, sort_f = selection_sort\<rparr>,
                     \<lparr>name = ''Bubble'', selected = False, sort_f = bubble_sort\<rparr>,
                     \<lparr>name = ''Quicksort'', selected = True, sort_f = quick_sort\<rparr>],
       sort_n = 3, sort_data = [], sort_queue = [], sort_threads = []\<rparr>))
     = Some [[1, 2, 3], [1, 2, 3], [3, 2, 1]] \<and>
   map_option (\<lambda>a3. map (map value_d) (sort_data a3))
     (Option.bind (sort_launch (\<lambda>i j. 0) (config_continue rev
      \<lparr>mode = CONFIG,
       sort_algos = [\<lparr>name = ''Selection'', selected = True, sort_f = selection_sort\<rparr>,
                     \<lparr>name = ''Bubble'', selected = False, sort_f = bubble_sort\<rparr>,
                     \<lparr>name = ''Quicksort'', selected = True, sort_f = quick_sort\<rparr>],
       sort_n = 3, sort_data = [], sort_queue = [], sort_threads = []\<rparr>))
        (handle_key_sorted Key_R))
     = Some [[3, 2, 1], [3, 2, 1], [3, 2, 1]]"
  by code_simp

end
